theory Spec2Isabelle
  imports Main "HOL-Library.AList" "HOL-Library.Char_ord" "HOL-Library.List_Lexorder"
begin

section \<open>Python dictionaries\<close>

text \<open>
  The three modules keep all of their state in Python dictionaries. A dictionary iterates
  in insertion order, and \<open>process_orders\<close> depends on that order, so a dictionary is an
  association list in insertion order whose keys are distinct:
  \<^item> \<open>d[k] = v\<close> is \<open>AList.update k v d\<close> (overwrite in place, else append);
  \<^item> \<open>del d[k]\<close> is \<open>AList.delete k d\<close>;
  \<^item> \<open>k in d\<close> is \<open>has_key d k\<close>;
  \<^item> \<open>d.get(k, v)\<close> is \<open>dict_get d k v\<close>;
  \<^item> \<open>d[k]\<close> as a read raises \<open>KeyError\<close> on a missing key.
  Order ids and resource names are strings, quantities and priorities are Python integers.
\<close>

type_synonym order_id = string
type_synonym resource = string
type_synonym quantities = "(resource \<times> int) list"

datatype py_error = KeyError | ValueError | IndexError

definition has_key :: "('k \<times> 'v) list \<Rightarrow> 'k \<Rightarrow> bool" where
  "has_key d k = (map_of d k \<noteq> None)"

definition dict_get :: "('k \<times> 'v) list \<Rightarrow> 'k \<Rightarrow> 'v \<Rightarrow> 'v" where
  "dict_get d k dflt = (case map_of d k of None \<Rightarrow> dflt | Some v \<Rightarrow> v)"

definition is_dict :: "('k \<times> 'v) list \<Rightarrow> bool" where
  "is_dict d = distinct (map fst d)"

section \<open>resource_manager.py\<close>

text \<open>
  The persistence calls (\<open>self.db\<close>) are an external collaborator and are not modelled;
  what is kept of them are the dictionary reads made to compute their arguments, since
  such a read can raise. An operation that raises is \<open>Inl KeyError\<close>; the model does not
  describe the object an aborted operation leaves behind.
\<close>

record resource_manager =
  total_resources :: quantities
  available_resources :: quantities
  allocated_resources :: "(order_id \<times> quantities) list"

text \<open>\<open>ResourceManager(resources)\<close> with a dictionary given.\<close>

definition ResourceManager :: "quantities \<Rightarrow> resource_manager" where
  "ResourceManager resources =
     \<lparr>total_resources = resources, available_resources = resources, allocated_resources = []\<rparr>"

text \<open>
  \<open>for res in self.total_resources:
       self.db.upsert_resource(res, self.total_resources[res], self.available_resources[res])\<close>
\<close>

definition sync_resources :: "resource_manager \<Rightarrow> py_error + unit" where
  "sync_resources ledger =
     (if list_all (has_key (available_resources ledger)) (map fst (total_resources ledger))
      then Inr () else Inl KeyError)"

text \<open>\<open>_can_allocate\<close>\<close>

definition can_allocate :: "resource_manager \<Rightarrow> quantities \<Rightarrow> bool" where
  "can_allocate ledger request =
     list_all (\<lambda>(res, qty). \<not> dict_get (available_resources ledger) res 0 < qty) request"

text \<open>\<open>for res, qty in request.items(): self.available_resources[res] -= qty\<close>\<close>

fun take_each :: "quantities \<Rightarrow> quantities \<Rightarrow> py_error + quantities" where
  "take_each available [] = Inr available"
| "take_each available ((res, qty) # request) =
     (case map_of available res of
        None \<Rightarrow> Inl KeyError
      | Some current \<Rightarrow> take_each (AList.update res (current - qty) available) request)"

text \<open>\<open>_allocate\<close>\<close>

definition allocate :: "resource_manager \<Rightarrow> order_id \<Rightarrow> quantities \<Rightarrow> py_error + resource_manager" where
  "allocate ledger order_id request =
     (case take_each (available_resources ledger) request of
        Inl e \<Rightarrow> Inl e
      | Inr available \<Rightarrow>
          (let ledger' = ledger\<lparr>available_resources := available,
                        allocated_resources := AList.update order_id request (allocated_resources ledger)\<rparr>
           in case sync_resources ledger' of Inl e \<Rightarrow> Inl e | Inr _ \<Rightarrow> Inr ledger'))"

definition request_resources ::
  "resource_manager \<Rightarrow> order_id \<Rightarrow> quantities \<Rightarrow> py_error + (bool \<times> resource_manager)" where
  "request_resources ledger order_id request =
     (if can_allocate ledger request
      then (case allocate ledger order_id request of Inl e \<Rightarrow> Inl e | Inr ledger' \<Rightarrow> Inr (True, ledger'))
      else Inr (False, ledger))"

text \<open>\<open>for res, qty in self.allocated_resources[order_id].items(): self.available_resources[res] += qty\<close>\<close>

fun give_each :: "quantities \<Rightarrow> quantities \<Rightarrow> py_error + quantities" where
  "give_each available [] = Inr available"
| "give_each available ((res, qty) # held) =
     (case map_of available res of
        None \<Rightarrow> Inl KeyError
      | Some current \<Rightarrow> give_each (AList.update res (current + qty) available) held)"

definition release_resources :: "resource_manager \<Rightarrow> order_id \<Rightarrow> py_error + resource_manager" where
  "release_resources ledger order_id =
     (case map_of (allocated_resources ledger) order_id of
        None \<Rightarrow> Inr ledger
      | Some held \<Rightarrow>
          (case give_each (available_resources ledger) held of
             Inl e \<Rightarrow> Inl e
           | Inr available \<Rightarrow>
               (let ledger' = ledger\<lparr>available_resources := available,
                             allocated_resources := AList.delete order_id (allocated_resources ledger)\<rparr>
                in case sync_resources ledger' of Inl e \<Rightarrow> Inl e | Inr _ \<Rightarrow> Inr ledger')))"

fun add_virtual_resources :: "resource_manager \<Rightarrow> quantities \<Rightarrow> resource_manager" where
  "add_virtual_resources ledger [] = ledger"
| "add_virtual_resources ledger ((res, qty) # additions) =
     add_virtual_resources
       (ledger\<lparr>total_resources :=
              AList.update res (dict_get (total_resources ledger) res 0 + qty) (total_resources ledger),
            available_resources :=
              AList.update res (dict_get (available_resources ledger) res 0 + qty) (available_resources ledger)\<rparr>)
       additions"

text \<open>\<open>preempt_resources\<close>: its own loop and its own bookkeeping, written out as in the source.\<close>

fun reclaim_each :: "quantities \<Rightarrow> quantities \<Rightarrow> py_error + quantities" where
  "reclaim_each available [] = Inr available"
| "reclaim_each available ((res, qty) # held) =
     (case map_of available res of
        None \<Rightarrow> Inl KeyError
      | Some current \<Rightarrow> reclaim_each (AList.update res (current + qty) available) held)"

definition preempt_resources :: "resource_manager \<Rightarrow> order_id \<Rightarrow> py_error + resource_manager" where
  "preempt_resources ledger order_id =
     (if has_key (allocated_resources ledger) order_id
      then (case reclaim_each (available_resources ledger) (the (map_of (allocated_resources ledger) order_id)) of
              Inl e \<Rightarrow> Inl e
            | Inr available \<Rightarrow>
                (let ledger' = ledger\<lparr>available_resources := available,
                              allocated_resources := AList.delete order_id (allocated_resources ledger)\<rparr>
                 in case sync_resources ledger' of Inl e \<Rightarrow> Inl e | Inr _ \<Rightarrow> Inr ledger'))
      else Inr ledger)"

section \<open>order_manager.py\<close>

text \<open>
  The coordinator holds a reference to the ledger; the record carries the ledger as the
  field \<open>rm\<close>. The field \<open>holding_orders\<close> of the source is never read or written after
  construction and is left out.
\<close>

record order_manager =
  rm :: resource_manager
  orders :: "(order_id \<times> quantities) list"
  pending_requests :: "(order_id \<times> quantities) list"
  order_priorities :: "(order_id \<times> int) list"

text \<open>
  \<open>OrderManager(resource_manager)\<close> reads the stored orders and allocations; the two
  tables are parameters: \<open>db_orders\<close> maps an order id to its status and priority,
  \<open>db_allocations\<close> an order id to its quantities.
\<close>

fun load_orders ::
  "(order_id \<times> quantities) list \<Rightarrow> (order_id \<times> string \<times> int) list \<Rightarrow> order_manager \<Rightarrow> order_manager" where
  "load_orders db_allocations [] om = om"
| "load_orders db_allocations ((order_id, status, priority) # db_orders) om =
     load_orders db_allocations db_orders
       (let om' = om\<lparr>order_priorities := AList.update order_id priority (order_priorities om)\<rparr>
        in if status = ''allocated''
           then om'\<lparr>orders := AList.update order_id (dict_get db_allocations order_id []) (orders om')\<rparr>
           else if status = ''pending''
           then om'\<lparr>pending_requests :=
                       AList.update order_id (dict_get db_allocations order_id []) (pending_requests om')\<rparr>
           else om')"

definition OrderManager ::
  "resource_manager \<Rightarrow> (order_id \<times> string \<times> int) list \<Rightarrow> (order_id \<times> quantities) list \<Rightarrow> order_manager" where
  "OrderManager resource_manager db_orders db_allocations =
     load_orders db_allocations db_orders
       \<lparr>rm = resource_manager, orders = [], pending_requests = [], order_priorities = []\<rparr>"

definition create_order :: "order_manager \<Rightarrow> order_id \<Rightarrow> quantities \<Rightarrow> int \<Rightarrow> order_manager" where
  "create_order om order_id resource_request priority =
     om\<lparr>pending_requests := AList.update order_id resource_request (pending_requests om),
        order_priorities := AList.update order_id priority (order_priorities om)\<rparr>"

text \<open>
  \<open>sorted(self.pending_requests.items(), key=lambda x: self.order_priorities.get(x[0], 5))\<close>:
  Python's sort is stable, and so is \<open>sort_key\<close>.
\<close>

definition sorted_requests :: "order_manager \<Rightarrow> (order_id \<times> quantities) list" where
  "sorted_requests om =
     sort_key (\<lambda>x. dict_get (order_priorities om) (fst x) 5) (pending_requests om)"

text \<open>
  The first loop of \<open>process_orders\<close>, over \<open>sorted_requests\<close>; the state it threads is the
  ledger, the \<open>orders\<close> dictionary and the list \<open>to_remove\<close>. The priority read
  \<open>self.order_priorities[order_id]\<close> is made for the persistence call.
\<close>

fun allocation_pass ::
  "(order_id \<times> int) list \<Rightarrow> (order_id \<times> quantities) list \<Rightarrow>
   resource_manager \<times> (order_id \<times> quantities) list \<times> order_id list \<Rightarrow>
   py_error + (resource_manager \<times> (order_id \<times> quantities) list \<times> order_id list)" where
  "allocation_pass priorities [] state = Inr state"
| "allocation_pass priorities ((order_id, request) # rest) (ledger, ords, to_remove) =
     (if can_allocate ledger request
      then (case allocate ledger order_id request of
              Inl e \<Rightarrow> Inl e
            | Inr ledger' \<Rightarrow>
                (if has_key priorities order_id
                 then allocation_pass priorities rest
                        (ledger', AList.update order_id request ords, to_remove @ [order_id])
                 else Inl KeyError))
      else allocation_pass priorities rest (ledger, ords, to_remove))"

text \<open>The second loop: \<open>for order_id in to_remove: if order_id in pending: del pending[order_id]\<close>\<close>

fun remove_each :: "(order_id \<times> quantities) list \<Rightarrow> order_id list \<Rightarrow> (order_id \<times> quantities) list" where
  "remove_each pending [] = pending"
| "remove_each pending (order_id # to_remove) =
     remove_each (if has_key pending order_id then AList.delete order_id pending else pending) to_remove"

definition process_orders :: "order_manager \<Rightarrow> py_error + order_manager" where
  "process_orders om =
     (case allocation_pass (order_priorities om) (sorted_requests om) (rm om, orders om, []) of
        Inl e \<Rightarrow> Inl e
      | Inr (ledger, ords, to_remove) \<Rightarrow>
          Inr (om\<lparr>rm := ledger, orders := ords,
                  pending_requests := remove_each (pending_requests om) to_remove\<rparr>))"

definition release_order :: "order_manager \<Rightarrow> order_id \<Rightarrow> py_error + order_manager" where
  "release_order om order_id =
     (case release_resources (rm om) order_id of
        Inl e \<Rightarrow> Inl e
      | Inr ledger \<Rightarrow>
          Inr (om\<lparr>rm := ledger,
                  orders := (if has_key (orders om) order_id
                             then AList.delete order_id (orders om) else orders om),
                  pending_requests := (if has_key (pending_requests om) order_id
                                       then AList.delete order_id (pending_requests om)
                                       else pending_requests om),
                  order_priorities := (if has_key (order_priorities om) order_id
                                       then AList.delete order_id (order_priorities om)
                                       else order_priorities om)\<rparr>))"

definition reschedule_order :: "order_manager \<Rightarrow> order_id \<Rightarrow> int \<Rightarrow> order_manager" where
  "reschedule_order om order_id new_priority =
     (if has_key (order_priorities om) order_id
      then om\<lparr>order_priorities := AList.update order_id new_priority (order_priorities om)\<rparr>
      else om)"

definition cancel_order :: "order_manager \<Rightarrow> order_id \<Rightarrow> py_error + order_manager" where
  "cancel_order om order_id = release_order om order_id"

section \<open>deadlock_detector.py\<close>

text \<open>
  The wait-for graph is a dictionary from an order id to a Python \<open>set\<close> of order ids.
  Python does not fix the order in which a \<open>set\<close> of strings is iterated. The functions
  that iterate a set take that order as the parameter \<open>iter\<close>, which lists the elements of
  a set; a well-behaved \<open>iter\<close> lists each element once (\<open>set_iteration\<close>).
\<close>

type_synonym wfg = "(order_id \<times> order_id set) list"
type_synonym set_order = "order_id set \<Rightarrow> order_id list"

definition set_iteration :: "set_order \<Rightarrow> bool" where
  "set_iteration iter = (\<forall>S. finite S \<longrightarrow> set (iter S) = S \<and> distinct (iter S))"

text \<open>\<open>for order_id in all_orders: wfg[order_id] = set()\<close>\<close>

fun init_nodes :: "wfg \<Rightarrow> order_id list \<Rightarrow> wfg" where
  "init_nodes wfg [] = wfg"
| "init_nodes wfg (order_id # all_orders) = init_nodes (AList.update order_id {} wfg) all_orders"

text \<open>\<open>wfg[order_id].add(holder_id)\<close>\<close>

definition add_edge :: "wfg \<Rightarrow> order_id \<Rightarrow> order_id \<Rightarrow> py_error + wfg" where
  "add_edge wfg order_id holder_id =
     (case map_of wfg order_id of
        None \<Rightarrow> Inl KeyError
      | Some waits \<Rightarrow> Inr (AList.update order_id (insert holder_id waits) wfg))"

text \<open>\<open>for holder_id, alloc in allocations.items(): ...\<close>\<close>

fun scan_holders ::
  "order_id \<Rightarrow> resource \<Rightarrow> (order_id \<times> quantities) list \<Rightarrow> wfg \<Rightarrow> py_error + wfg" where
  "scan_holders order_id res [] wfg = Inr wfg"
| "scan_holders order_id res ((holder_id, alloc) # allocations) wfg =
     (if holder_id \<noteq> order_id \<and> dict_get alloc res 0 > 0
      then (case add_edge wfg order_id holder_id of
              Inl e \<Rightarrow> Inl e
            | Inr wfg' \<Rightarrow> scan_holders order_id res allocations wfg')
      else scan_holders order_id res allocations wfg)"

text \<open>\<open>for res, qty in req.items(): ...\<close>\<close>

fun scan_request ::
  "order_id \<Rightarrow> quantities \<Rightarrow> (order_id \<times> quantities) list \<Rightarrow> wfg \<Rightarrow> py_error + wfg" where
  "scan_request order_id [] allocations wfg = Inr wfg"
| "scan_request order_id ((res, qty) # req) allocations wfg =
     (case scan_holders order_id res allocations wfg of
        Inl e \<Rightarrow> Inl e
      | Inr wfg' \<Rightarrow> scan_request order_id req allocations wfg')"

text \<open>\<open>for order_id, req in requests.items(): ...\<close>\<close>

fun scan_requests ::
  "(order_id \<times> quantities) list \<Rightarrow> (order_id \<times> quantities) list \<Rightarrow> wfg \<Rightarrow> py_error + wfg" where
  "scan_requests [] allocations wfg = Inr wfg"
| "scan_requests ((order_id, req) # requests) allocations wfg =
     (case scan_request order_id req allocations wfg of
        Inl e \<Rightarrow> Inl e
      | Inr wfg' \<Rightarrow> scan_requests requests allocations wfg')"

definition build_wait_for_graph ::
  "set_order \<Rightarrow> resource_manager \<Rightarrow> (order_id \<times> quantities) list \<Rightarrow> py_error + wfg" where
  "build_wait_for_graph iter ledger requests =
     (let allocations = allocated_resources ledger;
          all_orders = set (map fst allocations) \<union> set (map fst requests)
      in scan_requests requests allocations (init_nodes [] (iter all_orders)))"

text \<open>
  \<open>detect_deadlocks\<close>: the sets \<open>visited\<close> and \<open>stack\<close> and the list \<open>deadlocks\<close> are shared
  by all calls of the inner \<open>dfs\<close>; \<open>path\<close> is the list handed down from the root call and
  mutated in place.
\<close>

record dfs_state =
  visited :: "order_id set"
  stack :: "order_id set"
  deadlocks :: "order_id set list"
  path :: "order_id list"

text \<open>\<open>path.index(neighbor)\<close>\<close>

fun list_index :: "'a list \<Rightarrow> 'a \<Rightarrow> py_error + nat" where
  "list_index [] x = Inl ValueError"
| "list_index (y # ys) x =
     (if y = x then Inr 0
      else (case list_index ys x of Inl e \<Rightarrow> Inl e | Inr i \<Rightarrow> Inr (Suc i)))"

text \<open>\<open>wfg.get(node, [])\<close>, in the order the loop visits it\<close>

definition neighbors :: "set_order \<Rightarrow> wfg \<Rightarrow> order_id \<Rightarrow> order_id list" where
  "neighbors iter wfg node = (case map_of wfg node of None \<Rightarrow> [] | Some waits \<Rightarrow> iter waits)"

text \<open>
  \<open>dfs\<close> is the entry of the inner function up to its \<open>for\<close> loop; \<open>dfs_loop\<close> is the loop
  over the neighbours that are left, followed by the lines after the loop.
\<close>

function dfs :: "set_order \<Rightarrow> wfg \<Rightarrow> order_id \<Rightarrow> dfs_state \<Rightarrow> py_error + (bool \<times> dfs_state)"
  and dfs_loop ::
    "set_order \<Rightarrow> wfg \<Rightarrow> order_id \<Rightarrow> order_id list \<Rightarrow> dfs_state \<Rightarrow> py_error + (bool \<times> dfs_state)"
where
  "dfs iter wfg node st =
     dfs_loop iter wfg node (neighbors iter wfg node)
       (st\<lparr>visited := insert node (visited st), stack := insert node (stack st),
           path := path st @ [node]\<rparr>)"
| "dfs_loop iter wfg node [] st =
     (if node \<in> stack st
      then (if path st = [] then Inl IndexError
            else Inr (False, st\<lparr>stack := stack st - {node}, path := butlast (path st)\<rparr>))
      else Inl KeyError)"
| "dfs_loop iter wfg node (neighbor # rest) st =
     (if neighbor \<notin> visited st
      then (case dfs iter wfg neighbor st of
              Inl e \<Rightarrow> Inl e
            | Inr (found, st') \<Rightarrow>
                if found then Inr (True, st') else dfs_loop iter wfg node rest st')
      else if neighbor \<in> stack st
      then (case list_index (path st) neighbor of
              Inl e \<Rightarrow> Inl e
            | Inr cycle_start \<Rightarrow>
                Inr (True, st\<lparr>deadlocks := deadlocks st @ [set (drop cycle_start (path st))]\<rparr>))
      else dfs_loop iter wfg node rest st)"
  by pat_completeness auto

text \<open>
  Every recursive call of \<open>dfs\<close> is on an unvisited node and marks it, and \<open>visited\<close> never
  shrinks: the number of unvisited nodes of the graph decreases.
\<close>

termination
proof -
  have mono:
    "dfs_dfs_loop_dom (Inl (iter, wfg, node, st)) \<Longrightarrow>
        (\<forall>b st'. dfs iter wfg node st = Inr (b, st') \<longrightarrow> visited st \<subseteq> visited st')"
    "dfs_dfs_loop_dom (Inr (iter, wfg, node, nbs, st)) \<Longrightarrow>
        (\<forall>b st'. dfs_loop iter wfg node nbs st = Inr (b, st') \<longrightarrow> visited st \<subseteq> visited st')"
    for iter wfg node st nbs
  proof (induction iter wfg node st and iter wfg node nbs st rule: dfs_dfs_loop.pinduct)
    case (1 iter wfg node st)
    then show ?case by (auto simp: dfs.psimps)
  next
    case (2 iter wfg node st)
    then show ?case by (auto simp: dfs_loop.psimps split: if_splits)
  next
    case (3 iter wfg node neighbor rest st)
    then show ?case
      by (auto simp: dfs_loop.psimps split: if_splits sum.splits prod.splits) blast+
  qed
  show ?thesis
  proof (relation "inv_image (less_than <*lex*> less_than)
        (\<lambda>x. case x of
           Inl (iter, wfg, node, st) \<Rightarrow>
             (card (fst ` set wfg - insert node (visited st)),
              2 * length (neighbors iter wfg node) + 2)
         | Inr (iter, wfg, node, nbs, st) \<Rightarrow>
             (card (fst ` set wfg - visited st), 2 * length nbs + 1))", goal_cases)
    case 1
    show ?case by (intro wf_inv_image wf_lex_prod wf_less_than)
  next
    case (2 iter wfg node st)
    then show ?case by simp
  next
    case (3 iter wfg node neighbor rest st)
    show ?case
    proof (cases "neighbor \<in> fst ` set wfg")
      case True
      have "fst ` set wfg - insert neighbor (visited st) \<subset> fst ` set wfg - visited st"
        using True 3 by auto
      then have "card (fst ` set wfg - insert neighbor (visited st))
                   < card (fst ` set wfg - visited st)"
        by (intro psubset_card_mono) auto
      then show ?thesis by simp
    next
      case False
      then have "map_of wfg neighbor = None"
        by (simp add: map_of_eq_None_iff)
      moreover have "fst ` set wfg - insert neighbor (visited st) = fst ` set wfg - visited st"
        using False by auto
      ultimately show ?thesis by (simp add: neighbors_def)
    qed
  next
    case (4 iter wfg node neighbor rest st b found st')
    from 4 have "dfs_dfs_loop_dom (Inl (iter, wfg, neighbor, st))"
      and "dfs iter wfg neighbor st = Inr (False, st')" by auto
    from mono(1)[OF this(1)] this(2) have "visited st \<subseteq> visited st'"
      by blast
    then have "card (fst ` set wfg - visited st') \<le> card (fst ` set wfg - visited st)"
      by (intro card_mono) auto
    then show ?case by auto
  next
    case (5 iter wfg node neighbor rest st)
    then show ?case by simp
  qed
qed

text \<open>\<open>for node in wfg: if node not in visited: dfs(node, [])\<close>\<close>

fun dfs_roots :: "set_order \<Rightarrow> wfg \<Rightarrow> order_id list \<Rightarrow> dfs_state \<Rightarrow> py_error + dfs_state" where
  "dfs_roots iter wfg [] st = Inr st"
| "dfs_roots iter wfg (node # nodes) st =
     (if node \<notin> visited st
      then (case dfs iter wfg node (st\<lparr>path := []\<rparr>) of
              Inl e \<Rightarrow> Inl e
            | Inr (_, st') \<Rightarrow> dfs_roots iter wfg nodes st')
      else dfs_roots iter wfg nodes st)"

definition detect_deadlocks :: "set_order \<Rightarrow> wfg \<Rightarrow> py_error + order_id set list" where
  "detect_deadlocks iter wfg =
     (case dfs_roots iter wfg (map fst wfg) \<lparr>visited = {}, stack = {}, deadlocks = [], path = []\<rparr> of
        Inl e \<Rightarrow> Inl e
      | Inr st \<Rightarrow> Inr (deadlocks st))"

definition detect ::
  "set_order \<Rightarrow> resource_manager \<Rightarrow> (order_id \<times> quantities) list \<Rightarrow> py_error + order_id set list" where
  "detect iter ledger requests =
     (case build_wait_for_graph iter ledger requests of
        Inl e \<Rightarrow> Inl e
      | Inr wfg \<Rightarrow> detect_deadlocks iter wfg)"

text \<open>
  \<open>bankers_algorithm\<close>. \<open>need_res\<close> is the dictionary comprehension over the resources of
  the order's maximum demand, \<open>held\<close> being \<open>allocation.get(order, {})\<close>.
\<close>

definition need_res :: "quantities \<Rightarrow> quantities \<Rightarrow> quantities" where
  "need_res need held =
     map (\<lambda>res. (res, dict_get need res 0 - dict_get held res 0)) (map fst need)"

text \<open>\<open>all(need_res[res] <= work.get(res, 0) for res in need_res)\<close>\<close>

definition can_finish :: "quantities \<Rightarrow> quantities \<Rightarrow> bool" where
  "can_finish needs work = list_all (\<lambda>(res, n). n \<le> dict_get work res 0) needs"

text \<open>
  \<open>for res in allocation.get(order, {}):
       work[res] = work.get(res, 0) + allocation[order].get(res, 0)\<close>
\<close>

fun release_into :: "quantities \<Rightarrow> quantities \<Rightarrow> resource list \<Rightarrow> quantities" where
  "release_into work held [] = work"
| "release_into work held (res # rest) =
     release_into (AList.update res (dict_get work res 0 + dict_get held res 0) work) held rest"

text \<open>One pass of the \<open>for\<close> loop over \<open>max_demand.items()\<close>; the state is \<open>work\<close>, \<open>finish\<close>, \<open>progress\<close>.\<close>

fun scan_orders ::
  "(order_id \<times> quantities) list \<Rightarrow> (order_id \<times> quantities) list \<Rightarrow>
   quantities \<times> (order_id \<times> bool) list \<times> bool \<Rightarrow>
   py_error + (quantities \<times> (order_id \<times> bool) list \<times> bool)" where
  "scan_orders allocation [] state = Inr state"
| "scan_orders allocation ((order, need) # rest) (work, finish, progress) =
     (case map_of finish order of
        None \<Rightarrow> Inl KeyError
      | Some finished \<Rightarrow>
          (if \<not> finished
           then (let held = dict_get allocation order []
                 in if can_finish (need_res need held) work
                    then scan_orders allocation rest
                           (release_into work held (map fst held),
                            AList.update order True finish, True)
                    else scan_orders allocation rest (work, finish, progress))
           else scan_orders allocation rest (work, finish, progress)))"

text \<open>The \<open>while True\<close> loop, and \<open>return all(finish.values())\<close> after it.\<close>

function bankers_loop ::
  "(order_id \<times> quantities) list \<Rightarrow> (order_id \<times> quantities) list \<Rightarrow> quantities \<Rightarrow>
   (order_id \<times> bool) list \<Rightarrow> py_error + bool" where
  "bankers_loop max_demand allocation work finish =
     (case scan_orders allocation max_demand (work, finish, False) of
        Inl e \<Rightarrow> Inl e
      | Inr (work', finish', progress) \<Rightarrow>
          if \<not> progress then Inr (list_all snd finish')
          else bankers_loop max_demand allocation work' finish')"
  by pat_completeness auto

text \<open>A pass that makes progress turns at least one entry of \<open>finish\<close> from False to True.\<close>

termination
proof -
  let ?open = "\<lambda>finish :: (order_id \<times> bool) list. length (filter (\<lambda>p. \<not> snd p) finish)"
  have upd: "map_of finish order = Some False \<Longrightarrow>
               ?open (AList.update order True finish) < ?open finish"
    for finish :: "(order_id \<times> bool) list" and order
    by (induction finish) (auto split: if_splits)
  have scan: "scan_orders allocation demand (work, finish, progress) = Inr (work', finish', progress') \<Longrightarrow>
                ?open finish' \<le> ?open finish \<and> (progress' \<and> \<not> progress \<longrightarrow> ?open finish' < ?open finish)"
    for allocation demand work finish progress work' finish' progress'
  proof (induction demand arbitrary: work finish progress)
    case Nil
    then show ?case by simp
  next
    case (Cons a demand)
    obtain order need where a: "a = (order, need)" by (cases a)
    show ?case
    proof (cases "map_of finish order")
      case None
      with Cons.prems a show ?thesis by simp
    next
      case (Some finished)
      show ?thesis
      proof (cases "\<not> finished \<and> can_finish (need_res need (dict_get allocation order [])) work")
        case True
        with Some have lt: "?open (AList.update order True finish) < ?open finish"
          by (intro upd) simp
        from Cons.prems a Some True
        have "scan_orders allocation demand
                (release_into work (dict_get allocation order []) (map fst (dict_get allocation order [])),
                 AList.update order True finish, True) = Inr (work', finish', progress')"
          by (simp add: Let_def)
        from Cons.IH[OF this] lt show ?thesis by linarith
      next
        case False
        with Cons.prems a Some
        have "scan_orders allocation demand (work, finish, progress) = Inr (work', finish', progress')"
          by (auto simp: Let_def split: if_splits)
        from Cons.IH[OF this] show ?thesis .
      qed
    qed
  qed
  show ?thesis
  proof (relation "measure (\<lambda>(max_demand, allocation, work, finish). ?open finish)", goal_cases)
    case 1
    show ?case by simp
  next
    case (2 max_demand allocation work finish x work' y finish' progress)
    then have "scan_orders allocation max_demand (work, finish, False) = Inr (work', finish', True)"
      by auto
    from scan[OF this] show ?case by simp
  qed
qed

definition bankers_algorithm ::
  "(order_id \<times> quantities) list \<Rightarrow> (order_id \<times> quantities) list \<Rightarrow> quantities \<Rightarrow> py_error + bool" where
  "bankers_algorithm max_demand allocation available =
     bankers_loop max_demand allocation available (map (\<lambda>order. (order, False)) (map fst max_demand))"

section \<open>Notions used by the properties\<close>

text \<open>\<open>waits_for wfg a b\<close>: the graph has the edge from \<open>a\<close> to \<open>b\<close>.\<close>

definition waits_for :: "wfg \<Rightarrow> order_id \<Rightarrow> order_id \<Rightarrow> bool" where
  "waits_for wfg a b = (case map_of wfg a of None \<Rightarrow> False | Some waits \<Rightarrow> b \<in> waits)"

text \<open>
  The safe-state check as the specification words it, on abstract data: \<open>demand order\<close> is
  the order's maximum demand (a partial map from resources), \<open>held order res\<close> the quantity
  of \<open>res\<close> the order currently holds, \<open>work res\<close> the working count of \<open>res\<close> (0 where the
  dictionary has no entry), \<open>finished\<close> the set of orders declared finished.

  An order can finish when, for every resource in its need, need (maximum demand minus
  allocation) is at most the working count.
\<close>

definition can_finish_spec ::
  "(order_id \<Rightarrow> resource \<rightharpoonup> int) \<Rightarrow> (order_id \<Rightarrow> resource \<Rightarrow> int) \<Rightarrow> (resource \<Rightarrow> int) \<Rightarrow> order_id \<Rightarrow> bool" where
  "can_finish_spec demand held work order =
     (\<forall>res \<in> dom (demand order). the (demand order res) - held order res \<le> work res)"

text \<open>
  One scan over the orders: an unfinished order that can finish is declared finished and
  its entire allocation is released into \<open>work\<close>; the flag records progress.
\<close>

fun scan_spec ::
  "(order_id \<Rightarrow> resource \<rightharpoonup> int) \<Rightarrow> (order_id \<Rightarrow> resource \<Rightarrow> int) \<Rightarrow> order_id list \<Rightarrow>
   (resource \<Rightarrow> int) \<times> order_id set \<times> bool \<Rightarrow> (resource \<Rightarrow> int) \<times> order_id set \<times> bool" where
  "scan_spec demand held [] state = state"
| "scan_spec demand held (order # rest) (work, finished, progress) =
     (if order \<notin> finished \<and> can_finish_spec demand held work order
      then scan_spec demand held rest (\<lambda>res. work res + held order res, insert order finished, True)
      else scan_spec demand held rest (work, finished, progress))"

text \<open>
  Scans are repeated until a full scan makes no progress; the state is safe iff every order
  is finished then.
\<close>

inductive safe_state_spec ::
  "(order_id \<Rightarrow> resource \<rightharpoonup> int) \<Rightarrow> (order_id \<Rightarrow> resource \<Rightarrow> int) \<Rightarrow> order_id list \<Rightarrow>
   (resource \<Rightarrow> int) \<Rightarrow> order_id set \<Rightarrow> bool \<Rightarrow> bool" where
  no_progress:
    "scan_spec demand held all_orders (work, finished, False) = (work', finished', False) \<Longrightarrow>
     safe_state_spec demand held all_orders work finished (set all_orders \<subseteq> finished')"
| progress:
    "scan_spec demand held all_orders (work, finished, False) = (work', finished', True) \<Longrightarrow>
     safe_state_spec demand held all_orders work' finished' safe \<Longrightarrow>
     safe_state_spec demand held all_orders work finished safe"

text \<open>
  Sequences of calls. An \<open>operation\<close> is one call of a mutating method of the ledger or of
  the coordinator; \<open>perform\<close> makes the call on the coordinator and the ledger it refers
  to, and \<open>run\<close> makes a list of calls in order, stopping at the first that raises.
\<close>

datatype operation =
    Request_resources order_id quantities
  | Release_resources order_id
  | Preempt_resources order_id
  | Add_virtual_resources quantities
  | Create_order order_id quantities int
  | Process_orders
  | Release_order order_id
  | Cancel_order order_id
  | Reschedule_order order_id int

fun perform :: "operation \<Rightarrow> order_manager \<Rightarrow> py_error + order_manager" where
  "perform (Request_resources order_id request) om =
     (case request_resources (rm om) order_id request of
        Inl e \<Rightarrow> Inl e
      | Inr (granted, ledger) \<Rightarrow> Inr (om\<lparr>rm := ledger\<rparr>))"
| "perform (Release_resources order_id) om =
     (case release_resources (rm om) order_id of
        Inl e \<Rightarrow> Inl e
      | Inr ledger \<Rightarrow> Inr (om\<lparr>rm := ledger\<rparr>))"
| "perform (Preempt_resources order_id) om =
     (case preempt_resources (rm om) order_id of
        Inl e \<Rightarrow> Inl e
      | Inr ledger \<Rightarrow> Inr (om\<lparr>rm := ledger\<rparr>))"
| "perform (Add_virtual_resources additions) om =
     Inr (om\<lparr>rm := add_virtual_resources (rm om) additions\<rparr>)"
| "perform (Create_order order_id resource_request priority) om =
     Inr (create_order om order_id resource_request priority)"
| "perform Process_orders om = process_orders om"
| "perform (Release_order order_id) om = release_order om order_id"
| "perform (Cancel_order order_id) om = cancel_order om order_id"
| "perform (Reschedule_order order_id new_priority) om =
     Inr (reschedule_order om order_id new_priority)"

fun run :: "operation list \<Rightarrow> order_manager \<Rightarrow> py_error + order_manager" where
  "run [] om = Inr om"
| "run (operation # operations) om =
     (case perform operation om of Inl e \<Rightarrow> Inl e | Inr om' \<Rightarrow> run operations om')"





text \<open>\<open>exclusive om\<close>: no order id is both in the allocated-orders map and in the pending map.\<close>

definition exclusive :: "order_manager \<Rightarrow> bool" where
  "exclusive om = list_all (\<lambda>order_id. \<not> has_key (pending_requests om) order_id) (map fst (orders om))"

text \<open>
  \<open>creates_allocated operation om\<close>: the call is \<open>create_order\<close> for an id that is in the
  allocated-orders map at that moment. \<open>never_creates_allocated\<close>: no call of the run is.
\<close>

fun creates_allocated :: "operation \<Rightarrow> order_manager \<Rightarrow> bool" where
  "creates_allocated (Create_order order_id resource_request priority) om = has_key (orders om) order_id"
| "creates_allocated operation om = False"

fun never_creates_allocated :: "operation list \<Rightarrow> order_manager \<Rightarrow> bool" where
  "never_creates_allocated [] om = True"
| "never_creates_allocated (operation # operations) om =
     (\<not> creates_allocated operation om \<and>
      (case perform operation om of Inl e \<Rightarrow> True | Inr om' \<Rightarrow> never_creates_allocated operations om'))"



section \<open>Dictionary facts\<close>

lemma has_key_iff: "has_key d k \<longleftrightarrow> k \<in> fst ` set d"
  by (simp add: has_key_def map_of_eq_None_iff)

lemma dict_get_update:
  "dict_get (AList.update k v d) k' dflt = (if k' = k then v else dict_get d k' dflt)"
  by (simp add: dict_get_def update_conv')

lemma has_key_update: "has_key (AList.update k v d) k' \<longleftrightarrow> k' = k \<or> has_key d k'"
  by (simp add: has_key_def update_conv')

lemma has_key_delete: "has_key (AList.delete k d) k' \<longleftrightarrow> k' \<noteq> k \<and> has_key d k'"
  by (simp add: has_key_def delete_conv')

lemma dict_get_absent: "\<not> has_key d k \<Longrightarrow> dict_get d k dflt = dflt"
  by (simp add: has_key_def dict_get_def)

lemma update_present_keys: "has_key d k \<Longrightarrow> map fst (AList.update k v d) = map fst d"
  by (simp add: update_keys has_key_iff)

lemma has_key_same_keys: "map fst d' = map fst d \<Longrightarrow> has_key d' k = has_key d k"
  by (metis has_key_iff image_set)

section \<open>The ledger's loops\<close>

lemma take_each_keys: "take_each available request = Inr available' \<Longrightarrow> map fst available' = map fst available"
proof (induction available request rule: take_each.induct)
  case (1 available)
  then show ?case by simp
next
  case (2 available res qty request)
  then show ?case
    by (auto split: option.splits simp: update_present_keys has_key_def)
qed

lemma take_each_known:
  "take_each available request = Inr available' \<Longrightarrow> \<forall>res \<in> fst ` set request. has_key available res"
proof (induction available request rule: take_each.induct)
  case (1 available)
  then show ?case by simp
next
  case (2 available res qty request)
  from 2(2) obtain cur where h: "map_of available res = Some cur"
    and rest: "take_each (AList.update res (cur - qty) available) request = Inr available'"
    by (auto split: option.splits)
  from h have "has_key available res" by (simp add: has_key_def)
  with 2(1)[OF h rest] show ?case
    by (auto simp: has_key_update)
qed

lemma take_each_get:
  "take_each available request = Inr available' \<Longrightarrow> is_dict request \<Longrightarrow>
   dict_get available' r 0 = dict_get available r 0 - dict_get request r 0"
proof (induction available request rule: take_each.induct)
  case (1 available)
  then show ?case by (simp add: dict_get_def)
next
  case (2 available res qty request)
  from 2(2) obtain cur where h: "map_of available res = Some cur"
    and rest: "take_each (AList.update res (cur - qty) available) request = Inr available'"
    by (auto split: option.splits)
  from 2(3) have d: "is_dict request" and fresh: "res \<notin> fst ` set request"
    by (auto simp: is_dict_def)
  from fresh have absent: "dict_get request res 0 = 0"
    by (simp add: dict_get_absent has_key_iff)
  from 2(1)[OF h rest d] show ?case
    using h absent by (auto simp: dict_get_update) (simp_all add: dict_get_def)
qed

lemma take_each_total:
  "\<forall>res \<in> fst ` set request. has_key available res \<Longrightarrow> \<exists>available'. take_each available request = Inr available'"
proof (induction available request rule: take_each.induct)
  case (1 available)
  then show ?case by simp
next
  case (2 available res qty request)
  then obtain cur where h: "map_of available res = Some cur"
    by (auto simp: has_key_def)
  have "\<forall>r \<in> fst ` set request. has_key (AList.update res (cur - qty) available) r"
    using 2(2) by (auto simp: has_key_update)
  from 2(1)[OF h this] h show ?case by simp
qed

section \<open>Requests\<close>

lemma request_resources_granted:
  assumes "request_resources ledger order_id request = Inr (True, ledger')"
  shows "can_allocate ledger request"
    and "take_each (available_resources ledger) request = Inr (available_resources ledger')"
    and "allocated_resources ledger' = AList.update order_id request (allocated_resources ledger)"
    and "total_resources ledger' = total_resources ledger"
  using assms
  by (auto simp: request_resources_def allocate_def Let_def split: if_splits sum.splits)

text \<open>
  C10. If \<open>request_resources\<close> succeeds for an order id that already holds an
  allocation, the new request replaces that order's allocation record outright, and
  \<open>available\<close> is only decremented by the new request: for every resource it is the old
  available count minus the newly requested quantity, with nothing of the previous
  holding added back, and the totals are untouched.
\<close>

theorem request_resources_replaces_allocation:
  assumes "request_resources ledger order_id request = Inr (True, ledger')"
    and "has_key (allocated_resources ledger) order_id"
    and "is_dict request"
  shows "map_of (allocated_resources ledger') order_id = Some request
       \<and> map fst (allocated_resources ledger') = map fst (allocated_resources ledger)
       \<and> (\<forall>other. other \<noteq> order_id \<longrightarrow>
            map_of (allocated_resources ledger') other = map_of (allocated_resources ledger) other)
       \<and> (\<forall>res. dict_get (available_resources ledger') res 0
                  = dict_get (available_resources ledger) res 0 - dict_get request res 0)
       \<and> total_resources ledger' = total_resources ledger"
proof -
  note g = request_resources_granted[OF assms(1)]
  have "map_of (allocated_resources ledger') order_id = Some request"
    by (simp add: g(3) update_conv')
  moreover have "map fst (allocated_resources ledger') = map fst (allocated_resources ledger)"
    using assms(2) by (simp add: g(3) update_present_keys)
  moreover have "\<forall>other. other \<noteq> order_id \<longrightarrow>
            map_of (allocated_resources ledger') other = map_of (allocated_resources ledger) other"
    by (simp add: g(3) update_conv')
  moreover have "\<forall>res. dict_get (available_resources ledger') res 0
                  = dict_get (available_resources ledger) res 0 - dict_get request res 0"
    using take_each_get[OF g(2) assms(3)] by simp
  ultimately show ?thesis using g(4) by simp
qed

theorem request_resources_replaces_allocation_witness:
  "request_resources
     \<lparr>total_resources = [(''Oven'', 3)], available_resources = [(''Oven'', 1)],
      allocated_resources = [(''Order1'', [(''Oven'', 2)])]\<rparr> ''Order1'' [(''Oven'', 1)]
   = Inr (True, \<lparr>total_resources = [(''Oven'', 3)], available_resources = [(''Oven'', 0)],
                 allocated_resources = [(''Order1'', [(''Oven'', 1)])]\<rparr>)
   \<and> dict_get [(''Oven'', 0 :: int)] ''Oven'' 0 = dict_get [(''Oven'', 1)] ''Oven'' 0 - dict_get [(''Oven'', 1)] ''Oven'' 0"
proof -
  let ?l = "\<lparr>total_resources = [(''Oven'', 3)], available_resources = [(''Oven'', 1)],
      allocated_resources = [(''Order1'', [(''Oven'', 2)])]\<rparr>"
  let ?l' = "\<lparr>total_resources = [(''Oven'', 3)], available_resources = [(''Oven'', 0)],
                 allocated_resources = [(''Order1'', [(''Oven'', 1)])]\<rparr>"
  have run: "request_resources ?l ''Order1'' [(''Oven'', 1)] = Inr (True, ?l')"
    by (simp add: request_resources_def can_allocate_def allocate_def sync_resources_def
        dict_get_def has_key_def)
  have held: "has_key (allocated_resources ?l) ''Order1''"
    by (simp add: has_key_def)
  have dict: "is_dict [(''Oven'', 1 :: int)]"
    by (simp add: is_dict_def)
  from request_resources_replaces_allocation[OF run held dict] run show ?thesis
    by simp
qed

text \<open>
  C5. The request \<open>{Ghost: 0}\<close> on a ledger that only knows \<open>Oven\<close> passes
  \<open>_can_allocate\<close>, since \<open>available.get(Ghost, 0) \<ge> 0\<close>; the call then raises
  \<open>KeyError\<close> in \<open>_allocate\<close> instead of returning True.
\<close>

theorem request_resources_unknown_zero_raises:
  "can_allocate (ResourceManager [(''Oven'', 1)]) [(''Ghost'', 0)]
   \<and> request_resources (ResourceManager [(''Oven'', 1)]) ''Order1'' [(''Ghost'', 0)] = Inl KeyError"
  by (simp add: request_resources_def can_allocate_def allocate_def ResourceManager_def dict_get_def)

text \<open>
  Where the contract of \<open>request_resources\<close> does hold: on a ledger whose totals all have an
  available count, for a request that names an unknown resource only with a positive
  quantity. The call then returns True exactly when \<open>_can_allocate\<close> holds, with the
  available counts decremented by the request and the request recorded; otherwise it
  returns False and the ledger is unchanged.
\<close>

lemma request_resources_contract:
  assumes known: "\<forall>(res, qty) \<in> set request. has_key (available_resources ledger) res \<or> 0 < qty"
    and synced: "\<forall>res \<in> fst ` set (total_resources ledger). has_key (available_resources ledger) res"
    and dict: "is_dict request"
  shows "if can_allocate ledger request
         then \<exists>ledger'. request_resources ledger order_id request = Inr (True, ledger')
                \<and> allocated_resources ledger' = AList.update order_id request (allocated_resources ledger)
                \<and> total_resources ledger' = total_resources ledger
                \<and> (\<forall>res. dict_get (available_resources ledger') res 0
                       = dict_get (available_resources ledger) res 0 - dict_get request res 0)
         else request_resources ledger order_id request = Inr (False, ledger)"
proof (cases "can_allocate ledger request")
  case False
  then show ?thesis by (simp add: request_resources_def)
next
  case True
  have "has_key (available_resources ledger) res" if "res \<in> fst ` set request" for res
  proof -
    from that obtain qty where m: "(res, qty) \<in> set request" by auto
    show ?thesis
    proof (rule ccontr)
      assume n: "\<not> has_key (available_resources ledger) res"
      with known m have "0 < qty" by blast
      moreover from True m have "\<not> dict_get (available_resources ledger) res 0 < qty"
        by (auto simp: can_allocate_def list_all_iff)
      ultimately show False using n by (simp add: dict_get_absent)
    qed
  qed
  then have "\<forall>res \<in> fst ` set request. has_key (available_resources ledger) res" by blast
  from take_each_total[OF this] obtain available where
    t: "take_each (available_resources ledger) request = Inr available" by blast
  let ?ledger' = "ledger\<lparr>available_resources := available,
        allocated_resources := AList.update order_id request (allocated_resources ledger)\<rparr>"
  have "has_key available res = has_key (available_resources ledger) res" for res
    by (rule has_key_same_keys[OF take_each_keys[OF t]])
  with synced have "sync_resources ?ledger' = Inr ()"
    by (simp add: sync_resources_def list_all_iff)
  with t True have "request_resources ledger order_id request = Inr (True, ?ledger')"
    by (simp add: request_resources_def allocate_def Let_def)
  moreover have "\<forall>res. dict_get (available_resources ?ledger') res 0
                       = dict_get (available_resources ledger) res 0 - dict_get request res 0"
    using take_each_get[OF t dict] by simp
  ultimately show ?thesis using True by simp
qed


section \<open>Preemption and release\<close>

lemma reclaim_each_give_each: "reclaim_each available held = give_each available held"
  by (induction available held rule: give_each.induct) (auto split: option.splits)

lemma preempt_as_release: "preempt_resources ledger order_id = release_resources ledger order_id"
  by (cases "map_of (allocated_resources ledger) order_id")
     (simp_all add: preempt_resources_def release_resources_def has_key_def reclaim_each_give_each)

text \<open>
  C9. For every order id and every ledger state, \<open>preempt_resources\<close> gives the same
  outcome as \<open>release_resources\<close>: the same resulting ledger (available counts and
  allocation records), or the same error.
\<close>

theorem preempt_resources_eq_release_resources:
  "preempt_resources ledger order_id = release_resources ledger order_id"
  by (rule preempt_as_release)

section \<open>Releasing an order\<close>

lemma release_resources_nothing_held:
  "\<not> has_key (allocated_resources ledger) order_id \<Longrightarrow> release_resources ledger order_id = Inr ledger"
  by (simp add: release_resources_def has_key_def)

lemma release_resources_drops:
  "release_resources ledger order_id = Inr ledger' \<Longrightarrow> \<not> has_key (allocated_resources ledger') order_id"
  by (auto simp: release_resources_def has_key_delete Let_def has_key_def delete_conv'
      split: option.splits sum.splits)

text \<open>
  C8. Once \<open>release_order\<close> has returned for an order id, a second call on the same id
  returns as well and leaves the whole state (ledger, allocated orders, pending requests,
  priorities) as the first call left it; and \<open>release_resources\<close> on an order that holds
  no allocation returns the ledger unchanged, without an error.
\<close>

theorem release_order_idempotent:
  "(release_order om order_id = Inr om' \<longrightarrow> release_order om' order_id = Inr om')
   \<and> (\<not> has_key (allocated_resources ledger) order_id \<longrightarrow>
        release_resources ledger order_id = Inr ledger)"
proof (intro conjI impI)
  assume first: "release_order om order_id = Inr om'"
  then obtain ledger' where rel: "release_resources (rm om) order_id = Inr ledger'"
    and om': "om' = om\<lparr>rm := ledger',
                  orders := (if has_key (orders om) order_id
                             then AList.delete order_id (orders om) else orders om),
                  pending_requests := (if has_key (pending_requests om) order_id
                                       then AList.delete order_id (pending_requests om)
                                       else pending_requests om),
                  order_priorities := (if has_key (order_priorities om) order_id
                                       then AList.delete order_id (order_priorities om)
                                       else order_priorities om)\<rparr>"
    by (auto simp: release_order_def split: sum.splits)
  have "release_resources (rm om') order_id = Inr (rm om')"
    using release_resources_drops[OF rel] by (simp add: om' release_resources_nothing_held)
  moreover have "\<not> has_key (orders om') order_id" "\<not> has_key (pending_requests om') order_id"
    "\<not> has_key (order_priorities om') order_id"
    by (simp_all add: om' has_key_delete)
  ultimately show "release_order om' order_id = Inr om'"
    by (simp add: release_order_def)
next
  assume "\<not> has_key (allocated_resources ledger) order_id"
  then show "release_resources ledger order_id = Inr ledger"
    by (rule release_resources_nothing_held)
qed

theorem release_order_idempotent_witness:
  "release_order
     \<lparr>rm = \<lparr>total_resources = [(''Oven'', 1)], available_resources = [(''Oven'', 0)],
             allocated_resources = [(''Order1'', [(''Oven'', 1)])]\<rparr>,
      orders = [(''Order1'', [(''Oven'', 1)])], pending_requests = [],
      order_priorities = [(''Order1'', 5)]\<rparr> ''Order1''
   = Inr \<lparr>rm = ResourceManager [(''Oven'', 1)], orders = [], pending_requests = [],
          order_priorities = []\<rparr>
   \<and> release_order
       \<lparr>rm = ResourceManager [(''Oven'', 1)], orders = [], pending_requests = [],
        order_priorities = []\<rparr> ''Order1''
     = Inr \<lparr>rm = ResourceManager [(''Oven'', 1)], orders = [], pending_requests = [],
            order_priorities = []\<rparr>
   \<and> \<not> has_key (allocated_resources (ResourceManager [(''Oven'', 1)])) ''Order1''
   \<and> release_resources (ResourceManager [(''Oven'', 1)]) ''Order1'' = Inr (ResourceManager [(''Oven'', 1)])"
proof -
  let ?om = "\<lparr>rm = \<lparr>total_resources = [(''Oven'', 1)], available_resources = [(''Oven'', 0)],
             allocated_resources = [(''Order1'', [(''Oven'', 1)])]\<rparr>,
      orders = [(''Order1'', [(''Oven'', 1)])], pending_requests = [],
      order_priorities = [(''Order1'', 5)]\<rparr>"
  let ?om' = "\<lparr>rm = ResourceManager [(''Oven'', 1)], orders = [], pending_requests = [],
          order_priorities = []\<rparr>"
  have first: "release_order ?om ''Order1'' = Inr ?om'"
    by (simp add: release_order_def release_resources_def sync_resources_def has_key_def
        ResourceManager_def)
  have none_held: "\<not> has_key (allocated_resources (ResourceManager [(''Oven'', 1)])) ''Order1''"
    by (simp add: has_key_def ResourceManager_def)
  from release_order_idempotent[of ?om "''Order1''" ?om' "ResourceManager [(''Oven'', 1)]"]
    first none_held
  show ?thesis by blast
qed

section \<open>The wait-for graph\<close>

lemma init_nodes_lookup:
  "map_of (init_nodes wfg nodes) k = (if k \<in> set nodes then Some {} else map_of wfg k)"
  by (induction wfg nodes rule: init_nodes.induct) (auto simp: update_conv')

lemma init_nodes_keys: "fst ` set (init_nodes wfg nodes) = fst ` set wfg \<union> set nodes"
  by (induction wfg nodes rule: init_nodes.induct) (auto simp: dom_update)

lemma init_nodes_distinct: "distinct (map fst wfg) \<Longrightarrow> distinct (map fst (init_nodes wfg nodes))"
  by (induction wfg nodes rule: init_nodes.induct) (auto simp: distinct_update)

lemma add_edge_total: "has_key wfg a \<Longrightarrow> \<exists>wfg'. add_edge wfg a b = Inr wfg'"
  by (auto simp: add_edge_def has_key_def)

lemma add_edge_keys: "add_edge wfg a b = Inr wfg' \<Longrightarrow> map fst wfg' = map fst wfg"
  by (auto simp: add_edge_def update_present_keys has_key_def split: option.splits)

lemma add_edge_waits:
  "add_edge wfg a b = Inr wfg' \<Longrightarrow>
   waits_for wfg' x y \<longleftrightarrow> waits_for wfg x y \<or> (x = a \<and> y = b)"
proof -
  assume "add_edge wfg a b = Inr wfg'"
  then obtain waits where w: "map_of wfg a = Some waits"
    and g: "wfg' = AList.update a (insert b waits) wfg"
    by (auto simp: add_edge_def split: option.splits)
  show ?thesis
  proof (cases "x = a")
    case True
    then show ?thesis using w by (auto simp: g waits_for_def update_conv')
  next
    case False
    then show ?thesis by (simp add: g waits_for_def update_conv')
  qed
qed

lemma scan_holders_keys:
  "scan_holders a res allocations wfg = Inr wfg' \<Longrightarrow> map fst wfg' = map fst wfg"
proof (induction a res allocations wfg rule: scan_holders.induct)
  case (1 order_id res wfg)
  then show ?case by simp
next
  case (2 order_id res holder_id alloc allocations wfg)
  show ?case
  proof (cases "holder_id \<noteq> order_id \<and> 0 < dict_get alloc res 0")
    case True
    with 2(3) obtain wfg1 where e: "add_edge wfg order_id holder_id = Inr wfg1"
      and s: "scan_holders order_id res allocations wfg1 = Inr wfg'"
      by (auto split: sum.splits)
    from 2(1)[OF True e s] add_edge_keys[OF e] show ?thesis by simp
  next
    case False
    with 2(3) have "scan_holders order_id res allocations wfg = Inr wfg'" by auto
    from 2(2)[OF False this] show ?thesis .
  qed
qed

lemma scan_holders_waits:
  "scan_holders a res allocations wfg = Inr wfg' \<Longrightarrow>
   waits_for wfg' x y \<longleftrightarrow> waits_for wfg x y \<or>
     (x = a \<and> y \<noteq> a \<and> (\<exists>held. (y, held) \<in> set allocations \<and> 0 < dict_get held res 0))"
proof (induction a res allocations wfg rule: scan_holders.induct)
  case (1 order_id res wfg)
  then show ?case by simp
next
  case (2 order_id res holder_id alloc allocations wfg)
  show ?case
  proof (cases "holder_id \<noteq> order_id \<and> 0 < dict_get alloc res 0")
    case True
    with 2(3) obtain wfg1 where e: "add_edge wfg order_id holder_id = Inr wfg1"
      and s: "scan_holders order_id res allocations wfg1 = Inr wfg'"
      by (auto split: sum.splits)
    have a: "waits_for wfg' x y \<longleftrightarrow> waits_for wfg1 x y \<or>
       (x = order_id \<and> y \<noteq> order_id \<and> (\<exists>held. (y, held) \<in> set allocations \<and> 0 < dict_get held res 0))"
      by (rule 2(1)[OF True e s])
    have b: "waits_for wfg1 x y \<longleftrightarrow> waits_for wfg x y \<or> (x = order_id \<and> y = holder_id)"
      by (rule add_edge_waits[OF e])
    have c: "(\<exists>held. (y, held) \<in> set ((holder_id, alloc) # allocations) \<and> 0 < dict_get held res 0)
             \<longleftrightarrow> (y = holder_id \<and> 0 < dict_get alloc res 0)
                \<or> (\<exists>held. (y, held) \<in> set allocations \<and> 0 < dict_get held res 0)"
      by auto
    show ?thesis unfolding a b c using True by blast
  next
    case False
    with 2(3) have s: "scan_holders order_id res allocations wfg = Inr wfg'" by auto
    have a: "waits_for wfg' x y \<longleftrightarrow> waits_for wfg x y \<or>
       (x = order_id \<and> y \<noteq> order_id \<and> (\<exists>held. (y, held) \<in> set allocations \<and> 0 < dict_get held res 0))"
      by (rule 2(2)[OF False s])
    have c: "(\<exists>held. (y, held) \<in> set ((holder_id, alloc) # allocations) \<and> 0 < dict_get held res 0)
             \<longleftrightarrow> (y = holder_id \<and> 0 < dict_get alloc res 0)
                \<or> (\<exists>held. (y, held) \<in> set allocations \<and> 0 < dict_get held res 0)"
      by auto
    show ?thesis unfolding a c using False by blast
  qed
qed

lemma scan_holders_total:
  "has_key wfg a \<Longrightarrow> \<exists>wfg'. scan_holders a res allocations wfg = Inr wfg'"
proof (induction a res allocations wfg rule: scan_holders.induct)
  case (1 order_id res wfg)
  then show ?case by simp
next
  case (2 order_id res holder_id alloc allocations wfg)
  show ?case
  proof (cases "holder_id \<noteq> order_id \<and> 0 < dict_get alloc res 0")
    case True
    from add_edge_total[OF 2(3)] obtain wfg1 where e: "add_edge wfg order_id holder_id = Inr wfg1"
      by blast
    from 2(3) have "has_key wfg1 order_id"
      by (simp only: has_key_same_keys[OF add_edge_keys[OF e]])
    from 2(1)[OF True e this] e True show ?thesis by simp
  next
    case False
    from 2(2)[OF False 2(3)] False show ?thesis by auto
  qed
qed


lemma scan_request_keys:
  "scan_request a req allocations wfg = Inr wfg' \<Longrightarrow> map fst wfg' = map fst wfg"
proof (induction a req allocations wfg rule: scan_request.induct)
  case (1 order_id allocations wfg)
  then show ?case by simp
next
  case (2 order_id res qty req allocations wfg)
  from 2(2) obtain wfg1 where e: "scan_holders order_id res allocations wfg = Inr wfg1"
    and s: "scan_request order_id req allocations wfg1 = Inr wfg'"
    by (auto split: sum.splits)
  from 2(1)[OF e s] scan_holders_keys[OF e] show ?case by simp
qed

lemma scan_request_waits:
  "scan_request a req allocations wfg = Inr wfg' \<Longrightarrow>
   waits_for wfg' x y \<longleftrightarrow> waits_for wfg x y \<or>
     (x = a \<and> y \<noteq> a \<and> (\<exists>res held. res \<in> fst ` set req \<and> (y, held) \<in> set allocations
         \<and> 0 < dict_get held res 0))"
proof (induction a req allocations wfg rule: scan_request.induct)
  case (1 order_id allocations wfg)
  then show ?case by simp
next
  case (2 order_id res qty req allocations wfg)
  from 2(2) obtain wfg1 where e: "scan_holders order_id res allocations wfg = Inr wfg1"
    and s: "scan_request order_id req allocations wfg1 = Inr wfg'"
    by (auto split: sum.splits)
  have a: "waits_for wfg' x y \<longleftrightarrow> waits_for wfg1 x y \<or>
     (x = order_id \<and> y \<noteq> order_id \<and> (\<exists>r held. r \<in> fst ` set req \<and> (y, held) \<in> set allocations
         \<and> 0 < dict_get held r 0))"
    by (rule 2(1)[OF e s])
  have b: "waits_for wfg1 x y \<longleftrightarrow> waits_for wfg x y \<or>
     (x = order_id \<and> y \<noteq> order_id \<and> (\<exists>held. (y, held) \<in> set allocations \<and> 0 < dict_get held res 0))"
    by (rule scan_holders_waits[OF e])
  have c: "(\<exists>r held. r \<in> fst ` set ((res, qty) # req) \<and> (y, held) \<in> set allocations
               \<and> 0 < dict_get held r 0)
           \<longleftrightarrow> (\<exists>held. (y, held) \<in> set allocations \<and> 0 < dict_get held res 0)
              \<or> (\<exists>r held. r \<in> fst ` set req \<and> (y, held) \<in> set allocations \<and> 0 < dict_get held r 0)"
    by auto
  show ?case unfolding a b c by blast
qed

lemma scan_request_total:
  "has_key wfg a \<Longrightarrow> \<exists>wfg'. scan_request a req allocations wfg = Inr wfg'"
proof (induction a req allocations wfg rule: scan_request.induct)
  case (1 order_id allocations wfg)
  then show ?case by simp
next
  case (2 order_id res qty req allocations wfg)
  from scan_holders_total[OF 2(2)] obtain wfg1 where
    e: "scan_holders order_id res allocations wfg = Inr wfg1" by blast
  from 2(2) have "has_key wfg1 order_id"
    by (simp only: has_key_same_keys[OF scan_holders_keys[OF e]])
  from 2(1)[OF e this] e show ?case by simp
qed

lemma scan_requests_keys:
  "scan_requests requests allocations wfg = Inr wfg' \<Longrightarrow> map fst wfg' = map fst wfg"
proof (induction requests allocations wfg rule: scan_requests.induct)
  case (1 allocations wfg)
  then show ?case by simp
next
  case (2 order_id req requests allocations wfg)
  from 2(2) obtain wfg1 where e: "scan_request order_id req allocations wfg = Inr wfg1"
    and s: "scan_requests requests allocations wfg1 = Inr wfg'"
    by (auto split: sum.splits)
  from 2(1)[OF e s] scan_request_keys[OF e] show ?case by simp
qed

lemma scan_requests_waits:
  "scan_requests requests allocations wfg = Inr wfg' \<Longrightarrow>
   waits_for wfg' x y \<longleftrightarrow> waits_for wfg x y \<or>
     (y \<noteq> x \<and> (\<exists>req res held. (x, req) \<in> set requests \<and> res \<in> fst ` set req
         \<and> (y, held) \<in> set allocations \<and> 0 < dict_get held res 0))"
proof (induction requests allocations wfg rule: scan_requests.induct)
  case (1 allocations wfg)
  then show ?case by simp
next
  case (2 order_id req requests allocations wfg)
  from 2(2) obtain wfg1 where e: "scan_request order_id req allocations wfg = Inr wfg1"
    and s: "scan_requests requests allocations wfg1 = Inr wfg'"
    by (auto split: sum.splits)
  have a: "waits_for wfg' x y \<longleftrightarrow> waits_for wfg1 x y \<or>
     (y \<noteq> x \<and> (\<exists>rq res held. (x, rq) \<in> set requests \<and> res \<in> fst ` set rq
         \<and> (y, held) \<in> set allocations \<and> 0 < dict_get held res 0))"
    by (rule 2(1)[OF e s])
  have b: "waits_for wfg1 x y \<longleftrightarrow> waits_for wfg x y \<or>
     (x = order_id \<and> y \<noteq> order_id \<and> (\<exists>res held. res \<in> fst ` set req \<and> (y, held) \<in> set allocations
         \<and> 0 < dict_get held res 0))"
    by (rule scan_request_waits[OF e])
  have c: "(\<exists>rq res held. (x, rq) \<in> set ((order_id, req) # requests) \<and> res \<in> fst ` set rq
               \<and> (y, held) \<in> set allocations \<and> 0 < dict_get held res 0)
           \<longleftrightarrow> (x = order_id \<and> (\<exists>res held. res \<in> fst ` set req \<and> (y, held) \<in> set allocations
                   \<and> 0 < dict_get held res 0))
              \<or> (\<exists>rq res held. (x, rq) \<in> set requests \<and> res \<in> fst ` set rq
                   \<and> (y, held) \<in> set allocations \<and> 0 < dict_get held res 0)"
    by auto
  show ?case unfolding a b c by blast
qed

lemma scan_requests_total:
  "\<forall>a \<in> fst ` set requests. has_key wfg a \<Longrightarrow>
   \<exists>wfg'. scan_requests requests allocations wfg = Inr wfg'"
proof (induction requests allocations wfg rule: scan_requests.induct)
  case (1 allocations wfg)
  then show ?case by simp
next
  case (2 order_id req requests allocations wfg)
  from 2(2) have "has_key wfg order_id" by simp
  from scan_request_total[OF this] obtain wfg1 where
    e: "scan_request order_id req allocations wfg = Inr wfg1" by blast
  from 2(2) have "\<forall>a \<in> fst ` set requests. has_key wfg1 a"
    by (simp add: has_key_same_keys[OF scan_request_keys[OF e]])
  from 2(1)[OF e this] e show ?case by simp
qed

text \<open>
  C2. For every allocation map and request map, \<open>build_wait_for_graph\<close> returns a graph
  whose node set is exactly the union of the holder ids and the requester ids, and that
  has the edge from \<open>a\<close> to \<open>b\<close> iff \<open>a\<close> has a pending request for some resource of which
  \<open>b\<close> holds a positive quantity and \<open>a \<noteq> b\<close>. The order in which Python iterates the set
  of node ids is arbitrary (\<open>set_iteration iter\<close>).
\<close>

theorem build_wait_for_graph_nodes_and_edges:
  assumes "set_iteration iter"
  shows "\<exists>wfg. build_wait_for_graph iter ledger requests = Inr wfg
     \<and> distinct (map fst wfg)
     \<and> set (map fst wfg) = set (map fst (allocated_resources ledger)) \<union> set (map fst requests)
     \<and> (\<forall>a b. waits_for wfg a b \<longleftrightarrow>
           (a \<noteq> b \<and> (\<exists>req res held. (a, req) \<in> set requests \<and> res \<in> fst ` set req
               \<and> (b, held) \<in> set (allocated_resources ledger) \<and> 0 < dict_get held res 0)))"
proof -
  let ?all = "set (map fst (allocated_resources ledger)) \<union> set (map fst requests)"
  let ?g0 = "init_nodes [] (iter ?all)"
  from assms have it: "set (iter ?all) = ?all"
    by (simp add: set_iteration_def)
  have keys0: "fst ` set ?g0 = ?all"
    using it by (simp add: init_nodes_keys)
  have none0: "\<not> waits_for ?g0 x y" for x y
    by (simp add: waits_for_def init_nodes_lookup)
  have "\<forall>a \<in> fst ` set requests. has_key ?g0 a"
    unfolding has_key_iff keys0 by simp
  from scan_requests_total[OF this] obtain wfg where
    s: "scan_requests requests (allocated_resources ledger) ?g0 = Inr wfg"
    by blast
  note k = scan_requests_keys[OF s]
  have "build_wait_for_graph iter ledger requests = Inr wfg"
    using s by (simp add: build_wait_for_graph_def Let_def)
  moreover have "distinct (map fst wfg)"
    unfolding k by (rule init_nodes_distinct) simp
  moreover have "set (map fst wfg) = ?all"
    unfolding k using keys0 by simp
  moreover have "waits_for wfg a b \<longleftrightarrow>
           (a \<noteq> b \<and> (\<exists>req res held. (a, req) \<in> set requests \<and> res \<in> fst ` set req
               \<and> (b, held) \<in> set (allocated_resources ledger) \<and> 0 < dict_get held res 0))" for a b
    unfolding scan_requests_waits[OF s] using none0 by blast
  ultimately show ?thesis by blast
qed


theorem build_wait_for_graph_nodes_and_edges_witness:
  "set_iteration sorted_list_of_set
   \<and> (\<exists>wfg. build_wait_for_graph sorted_list_of_set
               \<lparr>total_resources = [(''Oven'', 1)], available_resources = [(''Oven'', 0)],
                allocated_resources = [(''A'', [(''Oven'', 1)])]\<rparr>
               [(''B'', [(''Oven'', 1)])] = Inr wfg
          \<and> set (map fst wfg) = {''A'', ''B''}
          \<and> waits_for wfg ''B'' ''A'' \<and> \<not> waits_for wfg ''A'' ''B'')"
proof -
  let ?ledger = "\<lparr>total_resources = [(''Oven'', 1)], available_resources = [(''Oven'', 0)],
                allocated_resources = [(''A'', [(''Oven'', 1)])]\<rparr>"
  let ?requests = "[(''B'', [(''Oven'', 1 :: int)])]"
  have it: "set_iteration sorted_list_of_set"
    by (simp add: set_iteration_def)
  from build_wait_for_graph_nodes_and_edges[OF it, of ?ledger ?requests]
  obtain wfg where p: "build_wait_for_graph sorted_list_of_set ?ledger ?requests = Inr wfg
     \<and> distinct (map fst wfg)
     \<and> set (map fst wfg) = set (map fst (allocated_resources ?ledger)) \<union> set (map fst ?requests)
     \<and> (\<forall>a b. waits_for wfg a b \<longleftrightarrow>
           (a \<noteq> b \<and> (\<exists>req res held. (a, req) \<in> set ?requests \<and> res \<in> fst ` set req
               \<and> (b, held) \<in> set (allocated_resources ?ledger) \<and> 0 < dict_get held res 0)))"
    ..
  note b = p[THEN conjunct1]
  note n = p[THEN conjunct2, THEN conjunct2, THEN conjunct1]
  note w = p[THEN conjunct2, THEN conjunct2, THEN conjunct2, rule_format]
  have nodes: "set (map fst wfg) = {''A'', ''B''}"
    unfolding n by auto
  have "(''B'', [(''Oven'', 1)]) \<in> set ?requests \<and> ''Oven'' \<in> fst ` set [(''Oven'', 1 :: int)]
        \<and> (''A'', [(''Oven'', 1)]) \<in> set (allocated_resources ?ledger)
        \<and> 0 < dict_get [(''Oven'', 1 :: int)] ''Oven'' 0"
    by (simp add: dict_get_def)
  then have ba: "waits_for wfg ''B'' ''A''"
    unfolding w[of "''B''" "''A''"] by blast
  have ab: "\<not> waits_for wfg ''A'' ''B''"
    unfolding w[of "''A''" "''B''"] by simp
  from it b nodes ba ab show ?thesis by blast
qed

section \<open>Cycle detection\<close>

lemma set_iteration_empty:
  assumes "set_iteration iter"
  shows "iter {} = []"
proof -
  from assms have "set (iter {}) = {}"
    unfolding set_iteration_def by blast
  then show ?thesis by simp
qed

lemma set_iteration_single:
  assumes "set_iteration iter"
  shows "iter {x} = [x]"
proof -
  from assms have s: "set (iter {x}) = {x}" and d: "distinct (iter {x})"
    by (simp_all add: set_iteration_def)
  show ?thesis
  proof (cases "iter {x}")
    case Nil
    with s show ?thesis by simp
  next
    case (Cons y ys)
    with s d have "y = x" "set ys \<subseteq> {x}" "y \<notin> set ys" by auto
    then have "ys = []" by (cases ys) auto
    with Cons \<open>y = x\<close> show ?thesis by simp
  qed
qed

lemma set_iteration_pair:
  assumes "set_iteration iter" and "x \<noteq> y"
  shows "iter {x, y} = [x, y] \<or> iter {x, y} = [y, x]"
proof -
  from assms have s: "set (iter {x, y}) = {x, y}" and d: "distinct (iter {x, y})"
    by (simp_all add: set_iteration_def)
  then have "length (iter {x, y}) = 2"
    using assms(2) distinct_card[OF d] by simp
  then obtain a b where ab: "iter {x, y} = [a, b]"
    by (auto simp: length_Suc_conv numeral_2_eq_2)
  with s d have "{a, b} = {x, y}" "a \<noteq> b" by auto
  then have "(a = x \<and> b = y) \<or> (a = y \<and> b = x)"
    by (auto simp: doubleton_eq_iff)
  with ab show ?thesis by auto
qed

lemma dfs_cycle_AB:
  assumes "set_iteration iter"
  shows "detect_deadlocks iter [(''A'', {''B''}), (''B'', {''A''})] = Inr [{''A'', ''B''}]"
proof -
  note one = set_iteration_single[OF assms]
  show ?thesis
    by (simp add: detect_deadlocks_def neighbors_def one)
qed

lemma dfs_cycle_BA:
  assumes "set_iteration iter"
  shows "detect_deadlocks iter [(''B'', {''A''}), (''A'', {''B''})] = Inr [{''A'', ''B''}]"
proof -
  note one = set_iteration_single[OF assms]
  have sw: "{''B'', ''A''} = {''A'', ''B''}" by auto
  show ?thesis
    by (simp add: detect_deadlocks_def neighbors_def one sw)
qed

lemma dfs_no_edges:
  assumes "set_iteration iter"
  shows "detect_deadlocks iter [(x, {}), (y, {})] = Inr []"
proof -
  note none = set_iteration_empty[OF assms]
  show ?thesis
    by (simp add: detect_deadlocks_def neighbors_def none)
qed


text \<open>
  The set \<open>stack\<close> is shared by all roots, and a root whose search returns True leaves
  its nodes on it. A later root that reaches one of them takes it for a node of its own
  path, and \<open>path.index\<close> raises. Here \<open>A\<close> and \<open>B\<close> wait for each other, \<open>C\<close> waits for
  \<open>A\<close>, and the roots are taken in the order \<open>A\<close>, \<open>B\<close>, \<open>C\<close>.
\<close>

lemma detect_deadlocks_stale_stack:
  assumes "iter {''A''} = [''A'']" and "iter {''B''} = [''B'']"
  shows "detect_deadlocks iter [(''A'', {''B''}), (''B'', {''A''}), (''C'', {''A''})] = Inl ValueError"
  by (simp add: detect_deadlocks_def neighbors_def assms)

lemma build_cycle_example:
  assumes "set_iteration iter"
  shows "build_wait_for_graph iter
           \<lparr>total_resources = t, available_resources = a,
            allocated_resources = [(''A'', [(''Oven'', 1)]), (''B'', [(''Chef'', 1)])]\<rparr>
           [(''A'', [(''Chef'', 1)]), (''B'', [(''Oven'', 1)])]
         \<in> {Inr [(''A'', {''B''}), (''B'', {''A''})], Inr [(''B'', {''A''}), (''A'', {''B''})]}"
proof -
  have all: "set (map fst [(''A'', [(''Oven'', 1 :: int)]), (''B'', [(''Chef'', 1)])])
             \<union> set (map fst [(''A'', [(''Chef'', 1 :: int)]), (''B'', [(''Oven'', 1)])]) = {''A'', ''B''}"
    by auto
  from set_iteration_pair[OF assms, of "''A''" "''B''"]
  consider "iter {''A'', ''B''} = [''A'', ''B'']" | "iter {''A'', ''B''} = [''B'', ''A'']"
    by auto
  then show ?thesis
  proof cases
    case 1
    have "build_wait_for_graph iter
           \<lparr>total_resources = t, available_resources = a,
            allocated_resources = [(''A'', [(''Oven'', 1)]), (''B'', [(''Chef'', 1)])]\<rparr>
           [(''A'', [(''Chef'', 1)]), (''B'', [(''Oven'', 1)])]
          = Inr [(''A'', {''B''}), (''B'', {''A''})]"
      apply (simp only: build_wait_for_graph_def Let_def resource_manager.select_convs all 1)
      apply (simp add: add_edge_def dict_get_def)
      done
    then show ?thesis by simp
  next
    case 2
    have "build_wait_for_graph iter
           \<lparr>total_resources = t, available_resources = a,
            allocated_resources = [(''A'', [(''Oven'', 1)]), (''B'', [(''Chef'', 1)])]\<rparr>
           [(''A'', [(''Chef'', 1)]), (''B'', [(''Oven'', 1)])]
          = Inr [(''B'', {''A''}), (''A'', {''B''})]"
      apply (simp only: build_wait_for_graph_def Let_def resource_manager.select_convs all 2)
      apply (simp add: add_edge_def dict_get_def)
      done
    then show ?thesis by simp
  qed
qed

lemma build_no_overlap_example:
  assumes "set_iteration iter"
  shows "build_wait_for_graph iter
           \<lparr>total_resources = t, available_resources = a,
            allocated_resources = [(''A'', [(''Oven'', 1)])]\<rparr>
           [(''B'', [(''Chef'', 1)])]
         \<in> {Inr [(''A'', {}), (''B'', {})], Inr [(''B'', {}), (''A'', {})]}"
proof -
  have all: "set (map fst [(''A'', [(''Oven'', 1 :: int)])])
             \<union> set (map fst [(''B'', [(''Chef'', 1 :: int)])]) = {''A'', ''B''}"
    by auto
  from set_iteration_pair[OF assms, of "''A''" "''B''"]
  consider "iter {''A'', ''B''} = [''A'', ''B'']" | "iter {''A'', ''B''} = [''B'', ''A'']"
    by auto
  then show ?thesis
  proof cases
    case 1
    have "build_wait_for_graph iter
           \<lparr>total_resources = t, available_resources = a,
            allocated_resources = [(''A'', [(''Oven'', 1)])]\<rparr>
           [(''B'', [(''Chef'', 1)])]
          = Inr [(''A'', {}), (''B'', {})]"
      apply (simp only: build_wait_for_graph_def Let_def resource_manager.select_convs all 1)
      apply (simp add: add_edge_def dict_get_def)
      done
    then show ?thesis by simp
  next
    case 2
    have "build_wait_for_graph iter
           \<lparr>total_resources = t, available_resources = a,
            allocated_resources = [(''A'', [(''Oven'', 1)])]\<rparr>
           [(''B'', [(''Chef'', 1)])]
          = Inr [(''B'', {}), (''A'', {})]"
      apply (simp only: build_wait_for_graph_def Let_def resource_manager.select_convs all 2)
      apply (simp add: add_edge_def dict_get_def)
      done
    then show ?thesis by simp
  qed
qed

text \<open>
  C3. With allocations \<open>{A: {Oven: 1}, B: {Chef: 1}}\<close> and pending requests
  \<open>{A: {Chef: 1}, B: {Oven: 1}}\<close>, \<open>detect\<close> returns one cycle, the set \<open>{A, B}\<close>; with the
  allocation \<open>{A: {Oven: 1}}\<close> and the pending request \<open>{B: {Chef: 1}}\<close> it returns the
  empty list. Both hold whatever order Python iterates its sets in, and whatever the
  ledger's totals and available counts are.
\<close>

theorem detect_cycle_and_no_false_positive:
  assumes "set_iteration iter"
  shows "detect iter
           \<lparr>total_resources = t, available_resources = a,
            allocated_resources = [(''A'', [(''Oven'', 1)]), (''B'', [(''Chef'', 1)])]\<rparr>
           [(''A'', [(''Chef'', 1)]), (''B'', [(''Oven'', 1)])]
         = Inr [{''A'', ''B''}]
       \<and> detect iter
           \<lparr>total_resources = t, available_resources = a,
            allocated_resources = [(''A'', [(''Oven'', 1)])]\<rparr>
           [(''B'', [(''Chef'', 1)])]
         = Inr []"
proof
  from build_cycle_example[OF assms, of t a]
  show "detect iter
           \<lparr>total_resources = t, available_resources = a,
            allocated_resources = [(''A'', [(''Oven'', 1)]), (''B'', [(''Chef'', 1)])]\<rparr>
           [(''A'', [(''Chef'', 1)]), (''B'', [(''Oven'', 1)])]
         = Inr [{''A'', ''B''}]"
    by (auto simp: detect_def dfs_cycle_AB[OF assms] dfs_cycle_BA[OF assms])
next
  from build_no_overlap_example[OF assms, of t a]
  show "detect iter
           \<lparr>total_resources = t, available_resources = a,
            allocated_resources = [(''A'', [(''Oven'', 1)])]\<rparr>
           [(''B'', [(''Chef'', 1)])]
         = Inr []"
    by (auto simp: detect_def dfs_no_edges[OF assms])
qed

theorem detect_cycle_and_no_false_positive_witness:
  "set_iteration sorted_list_of_set
   \<and> detect sorted_list_of_set
       \<lparr>total_resources = [(''Oven'', 1), (''Chef'', 1)],
        available_resources = [(''Oven'', 0), (''Chef'', 0)],
        allocated_resources = [(''A'', [(''Oven'', 1)]), (''B'', [(''Chef'', 1)])]\<rparr>
       [(''A'', [(''Chef'', 1)]), (''B'', [(''Oven'', 1)])]
     = Inr [{''A'', ''B''}]"
proof -
  have it: "set_iteration sorted_list_of_set"
    by (simp add: set_iteration_def)
  from detect_cycle_and_no_false_positive[OF it,
      of "[(''Oven'', 1), (''Chef'', 1)]" "[(''Oven'', 0), (''Chef'', 0)]"] it
  show ?thesis by blast
qed

section \<open>The banker's safe-state check\<close>

declare bankers_loop.simps [simp del]


lemma release_into_get:
  "distinct ks \<Longrightarrow>
   dict_get (release_into work held ks) r 0
     = dict_get work r 0 + (if r \<in> set ks then dict_get held r 0 else 0)"
proof (induction work held ks rule: release_into.induct)
  case (1 work held)
  then show ?case by simp
next
  case (2 work held res rest)
  then show ?case by (auto simp: dict_get_update)
qed

lemma release_into_all:
  assumes "is_dict held"
  shows "dict_get (release_into work held (map fst held)) r 0 = dict_get work r 0 + dict_get held r 0"
proof -
  have "r \<notin> set (map fst held) \<Longrightarrow> dict_get held r 0 = 0"
    by (simp add: dict_get_absent has_key_iff)
  with release_into_get[of "map fst held" work held r] assms show ?thesis
    by (auto simp: is_dict_def)
qed

lemma can_finish_iff:
  "can_finish (need_res need held) work
   \<longleftrightarrow> (\<forall>res \<in> dom (map_of need). the (map_of need res) - dict_get held res 0 \<le> dict_get work res 0)"
proof -
  have "can_finish (need_res need held) work
        \<longleftrightarrow> (\<forall>res \<in> fst ` set need. dict_get need res 0 - dict_get held res 0 \<le> dict_get work res 0)"
    by (auto simp: can_finish_def need_res_def list_all_iff)
  also have "\<dots> \<longleftrightarrow> (\<forall>res \<in> dom (map_of need). the (map_of need res) - dict_get held res 0 \<le> dict_get work res 0)"
  proof -
    have "the (map_of need res) = dict_get need res 0" if "res \<in> dom (map_of need)" for res
      using that by (auto simp: dict_get_def)
    then show ?thesis
      by (simp add: dom_map_of_conv_image_fst[symmetric])
  qed
  finally show ?thesis .
qed

lemma finished_update:
  "{order. map_of (AList.update k True finish) order = Some True}
     = insert k {order. map_of finish order = Some True}"
  by (auto simp: update_conv')


lemma scan_orders_refines:
  assumes held_def: "\<And>order res. held order res = dict_get (dict_get allocation order []) res 0"
    and dicts: "\<And>order. is_dict (dict_get allocation order [])"
  shows "\<forall>(order, need) \<in> set rest. demand order = map_of need \<and> has_key finish order \<Longrightarrow>
     \<exists>work' finish' progress'.
        scan_orders allocation rest (work, finish, progress) = Inr (work', finish', progress')
      \<and> map fst finish' = map fst finish
      \<and> scan_spec demand held (map fst rest)
            (\<lambda>res. dict_get work res 0, {order. map_of finish order = Some True}, progress)
          = (\<lambda>res. dict_get work' res 0, {order. map_of finish' order = Some True}, progress')"
proof (induction rest arbitrary: work finish progress)
  case Nil
  then show ?case by simp
next
  case (Cons p rest)
  obtain order need where p: "p = (order, need)" by (cases p)
  let ?h = "dict_get allocation order []"
  from Cons.prems p have dem: "demand order = map_of need" and key: "has_key finish order"
    and rest: "\<forall>(order, need) \<in> set rest. demand order = map_of need \<and> has_key finish order"
    by auto
  from key obtain fin where fin: "map_of finish order = Some fin"
    by (auto simp: has_key_def)
  have cf: "can_finish (need_res need ?h) work
            \<longleftrightarrow> can_finish_spec demand held (\<lambda>res. dict_get work res 0) order"
    by (simp add: can_finish_iff can_finish_spec_def dem held_def)
  have notin: "order \<notin> {order. map_of finish order = Some True} \<longleftrightarrow> \<not> fin"
    using fin by simp
  show ?case
  proof (cases "\<not> fin \<and> can_finish (need_res need ?h) work")
    case True
    let ?work1 = "release_into work ?h (map fst ?h)"
    let ?finish1 = "AList.update order True finish"
    have "\<forall>(order, need) \<in> set rest. demand order = map_of need \<and> has_key ?finish1 order"
      using rest by (auto simp: has_key_update)
    from Cons.IH[OF this, of ?work1 True] obtain work' finish' progress' where
      s: "scan_orders allocation rest (?work1, ?finish1, True) = Inr (work', finish', progress')"
      and k: "map fst finish' = map fst ?finish1"
      and sp: "scan_spec demand held (map fst rest)
            (\<lambda>res. dict_get ?work1 res 0, {order. map_of ?finish1 order = Some True}, True)
          = (\<lambda>res. dict_get work' res 0, {order. map_of finish' order = Some True}, progress')"
      by blast
    have w1: "(\<lambda>res. dict_get ?work1 res 0) = (\<lambda>res. dict_get work res 0 + held order res)"
      by (rule ext) (simp add: release_into_all[OF dicts] held_def)
    have "scan_orders allocation (p # rest) (work, finish, progress) = Inr (work', finish', progress')"
      using True fin s by (simp add: p Let_def)
    moreover have "map fst finish' = map fst finish"
      using k key by (simp add: update_present_keys)
    moreover have "scan_spec demand held (map fst (p # rest))
            (\<lambda>res. dict_get work res 0, {order. map_of finish order = Some True}, progress)
          = (\<lambda>res. dict_get work' res 0, {order. map_of finish' order = Some True}, progress')"
      using True sp fin unfolding w1 finished_update
      by (simp add: p cf[symmetric])
    ultimately show ?thesis by blast
  next
    case False
    from Cons.IH[OF rest, of work progress] obtain work' finish' progress' where
      s: "scan_orders allocation rest (work, finish, progress) = Inr (work', finish', progress')"
      and k: "map fst finish' = map fst finish"
      and sp: "scan_spec demand held (map fst rest)
            (\<lambda>res. dict_get work res 0, {order. map_of finish order = Some True}, progress)
          = (\<lambda>res. dict_get work' res 0, {order. map_of finish' order = Some True}, progress')"
      by blast
    have "scan_orders allocation (p # rest) (work, finish, progress) = Inr (work', finish', progress')"
      using False fin s by (auto simp: p Let_def)
    moreover have "scan_spec demand held (map fst (p # rest))
            (\<lambda>res. dict_get work res 0, {order. map_of finish order = Some True}, progress)
          = (\<lambda>res. dict_get work' res 0, {order. map_of finish' order = Some True}, progress')"
      using False sp fin by (auto simp: p cf[symmetric])
    ultimately show ?thesis using k by blast
  qed
qed


lemma all_finished_iff:
  assumes "distinct (map fst finish)" and "set all_orders = fst ` set finish"
  shows "list_all snd finish \<longleftrightarrow> set all_orders \<subseteq> {order. map_of finish order = Some True}"
proof
  assume all: "list_all snd finish"
  show "set all_orders \<subseteq> {order. map_of finish order = Some True}"
  proof
    fix order assume "order \<in> set all_orders"
    with assms(2) obtain b where m: "(order, b) \<in> set finish" by auto
    with all have "b" by (auto simp: list_all_iff)
    with m assms(1) show "order \<in> {order. map_of finish order = Some True}" by simp
  qed
next
  assume sub: "set all_orders \<subseteq> {order. map_of finish order = Some True}"
  have "b" if "(order, b) \<in> set finish" for order b
  proof -
    from that assms(2) have "order \<in> set all_orders" by force
    with sub have "map_of finish order = Some True" by blast
    with assms(1) have "(order, True) \<in> set finish" by simp
    with that assms(1) show ?thesis by (metis eq_key_imp_eq_value)
  qed
  then show "list_all snd finish" by (auto simp: list_all_iff)
qed

lemma bankers_loop_refines:
  "map fst finish = map fst max_demand \<Longrightarrow>
   \<forall>order res. held order res = dict_get (dict_get allocation order []) res 0 \<Longrightarrow>
   \<forall>order. is_dict (dict_get allocation order []) \<Longrightarrow>
   \<forall>(order, need) \<in> set max_demand. demand order = map_of need \<Longrightarrow>
   distinct (map fst max_demand) \<Longrightarrow>
     \<exists>safe. bankers_loop max_demand allocation work finish = Inr safe
       \<and> safe_state_spec demand held (map fst max_demand)
            (\<lambda>res. dict_get work res 0) {order. map_of finish order = Some True} safe"
proof (induction max_demand allocation work finish rule: bankers_loop.induct)
  case (1 max_demand allocation work finish)
  note keys = "1.prems"(1) and held_def = "1.prems"(2) and dicts = "1.prems"(3)
    and dem = "1.prems"(4) and dist = "1.prems"(5)
  have pre: "\<forall>(order, need) \<in> set max_demand. demand order = map_of need \<and> has_key finish order"
  proof -
    have "has_key finish order" if "(order, need) \<in> set max_demand" for order need
    proof -
      from that have "order \<in> set (map fst max_demand)" by force
      then have "order \<in> set (map fst finish)" by (simp only: keys)
      then show ?thesis by (simp add: has_key_iff)
    qed
    with dem show ?thesis by blast
  qed
  from scan_orders_refines[of held allocation max_demand demand finish work False,
      OF held_def[rule_format] dicts[rule_format] pre]
  obtain work' finish' progress' where
    p: "scan_orders allocation max_demand (work, finish, False) = Inr (work', finish', progress')
      \<and> map fst finish' = map fst finish
      \<and> scan_spec demand held (map fst max_demand)
            (\<lambda>res. dict_get work res 0, {order. map_of finish order = Some True}, False)
          = (\<lambda>res. dict_get work' res 0, {order. map_of finish' order = Some True}, progress')"
    by (elim exE) (erule that)
  note s = p[THEN conjunct1] and k = p[THEN conjunct2, THEN conjunct1]
    and sp = p[THEN conjunct2, THEN conjunct2]
  from k keys have k': "map fst finish' = map fst max_demand" by (simp only:)
  note unfold = bankers_loop.simps[of max_demand allocation work finish]
  show ?case
  proof (cases progress')
    case True
    then have nn: "\<not> \<not> progress'" by simp
    have "\<exists>safe. bankers_loop max_demand allocation work' finish' = Inr safe
       \<and> safe_state_spec demand held (map fst max_demand)
            (\<lambda>res. dict_get work' res 0) {order. map_of finish' order = Some True} safe"
      by (rule "1.IH"[OF s refl refl nn k' held_def dicts dem dist])
    then obtain safe where q: "bankers_loop max_demand allocation work' finish' = Inr safe
       \<and> safe_state_spec demand held (map fst max_demand)
            (\<lambda>res. dict_get work' res 0) {order. map_of finish' order = Some True} safe"
      ..
    have "bankers_loop max_demand allocation work finish
            = bankers_loop max_demand allocation work' finish'"
      by (simp only: unfold s True sum.case prod.case not_True_eq_False if_False)
    with q have "bankers_loop max_demand allocation work finish = Inr safe"
      by (simp only:)
    moreover have "safe_state_spec demand held (map fst max_demand)
            (\<lambda>res. dict_get work res 0) {order. map_of finish order = Some True} safe"
    proof (rule safe_state_spec.progress)
      show "scan_spec demand held (map fst max_demand)
            (\<lambda>res. dict_get work res 0, {order. map_of finish order = Some True}, False)
          = (\<lambda>res. dict_get work' res 0, {order. map_of finish' order = Some True}, True)"
        using sp True by (simp only:)
      show "safe_state_spec demand held (map fst max_demand)
            (\<lambda>res. dict_get work' res 0) {order. map_of finish' order = Some True} safe"
        by (rule q[THEN conjunct2])
    qed
    ultimately show ?thesis by (intro exI conjI)
  next
    case False
    have r: "bankers_loop max_demand allocation work finish = Inr (list_all snd finish')"
      by (simp only: unfold s False sum.case prod.case not_False_eq_True if_True)
    have e: "list_all snd finish'
                   \<longleftrightarrow> set (map fst max_demand) \<subseteq> {order. map_of finish' order = Some True}"
    proof (rule all_finished_iff)
      show "distinct (map fst finish')" using dist by (simp only: k')
      show "set (map fst max_demand) = fst ` set finish'"
        unfolding k'[symmetric] by simp
    qed
    from r e have "bankers_loop max_demand allocation work finish
         = Inr (set (map fst max_demand) \<subseteq> {order. map_of finish' order = Some True})"
      by (simp only:)
    moreover have "safe_state_spec demand held (map fst max_demand)
            (\<lambda>res. dict_get work res 0) {order. map_of finish order = Some True}
            (set (map fst max_demand) \<subseteq> {order. map_of finish' order = Some True})"
    proof (rule safe_state_spec.no_progress)
      show "scan_spec demand held (map fst max_demand)
            (\<lambda>res. dict_get work res 0, {order. map_of finish order = Some True}, False)
          = (\<lambda>res. dict_get work' res 0, {order. map_of finish' order = Some True}, False)"
        using sp False by (simp only:)
    qed
    ultimately show ?thesis by (intro exI conjI)
  qed
qed

lemma safe_state_spec_unique:
  "safe_state_spec demand held all_orders work finished a \<Longrightarrow>
   safe_state_spec demand held all_orders work finished b \<Longrightarrow> a = b"
proof (induction arbitrary: b rule: safe_state_spec.induct)
  case (no_progress demand held all_orders work finished work' finished')
  from no_progress(2) no_progress(1) show ?case
    by (cases rule: safe_state_spec.cases) auto
next
  case (progress demand held all_orders work finished work' finished' safe)
  from progress(4) progress(1) have "safe_state_spec demand held all_orders work' finished' b"
    by (cases rule: safe_state_spec.cases) auto
  then show ?case by (rule progress(3))
qed

lemma bankers_example:
  "bankers_algorithm [(''X'', [(''R'', 2)]), (''Y'', [(''R'', 1)])]
       [(''X'', [(''R'', 1)]), (''Y'', [(''R'', 1)])] [(''R'', 2)] = Inr True"
  by (simp add: bankers_algorithm_def bankers_loop.simps can_finish_def need_res_def dict_get_def)

text \<open>
  C4. For every \<open>max_demand\<close>, \<open>allocation\<close> and \<open>available\<close> (dictionaries),
  \<open>bankers_algorithm\<close> returns a truth value, and it is the one outcome of the procedure the
  specification words: scan the unfinished orders repeatedly, finish an order iff every
  resource in its need (maximum demand minus allocation) is at most \<open>work\<close> (a missing
  entry counting 0), release its entire allocation into \<open>work\<close> on finishing, stop at the
  first scan without progress, and answer True iff every order is finished. In particular
  \<open>available = {R: 2}\<close> with \<open>X\<close> (alloc \<open>{R: 1}\<close>, max \<open>{R: 2}\<close>) and \<open>Y\<close> (alloc \<open>{R: 1}\<close>,
  max \<open>{R: 1}\<close>) yields True.
\<close>

theorem bankers_algorithm_safe_state:
  "(is_dict max_demand \<and> list_all (\<lambda>(order, held). is_dict held) allocation \<longrightarrow>
      (\<exists>safe. bankers_algorithm max_demand allocation available = Inr safe
         \<and> (\<forall>outcome.
               safe_state_spec (\<lambda>order. map_of (dict_get max_demand order []))
                 (\<lambda>order res. dict_get (dict_get allocation order []) res 0)
                 (map fst max_demand) (\<lambda>res. dict_get available res 0) {} outcome
               \<longleftrightarrow> outcome = safe)))
   \<and> bankers_algorithm [(''X'', [(''R'', 2)]), (''Y'', [(''R'', 1)])]
        [(''X'', [(''R'', 1)]), (''Y'', [(''R'', 1)])] [(''R'', 2)] = Inr True"
proof (intro conjI impI)
  assume a: "is_dict max_demand \<and> list_all (\<lambda>(order, held). is_dict held) allocation"
  let ?finish = "map (\<lambda>order. (order, False)) (map fst max_demand)"
  have dicts: "is_dict (dict_get allocation order [])" for order
  proof (cases "map_of allocation order")
    case None
    then show ?thesis by (simp add: dict_get_def is_dict_def)
  next
    case (Some held)
    then have "(order, held) \<in> set allocation" by (rule map_of_SomeD)
    with a have "is_dict held" by (auto simp: list_all_iff)
    with Some show ?thesis by (simp add: dict_get_def)
  qed
  have dem: "\<forall>(order, need) \<in> set max_demand.
               map_of (dict_get max_demand order []) = map_of need"
    using a by (auto simp: is_dict_def dict_get_def)
  have keys: "map fst ?finish = map fst max_demand"
    by (simp add: comp_def)
  have none: "{order. map_of ?finish order = Some True} = {}"
    by (auto dest: map_of_SomeD)
  have held: "\<forall>order res. dict_get (dict_get allocation order []) res 0
                 = dict_get (dict_get allocation order []) res 0"
    by simp
  have dicts_all: "\<forall>order. is_dict (dict_get allocation order [])"
    using dicts by simp
  have dist: "distinct (map fst max_demand)"
    using a by (simp add: is_dict_def)
  from bankers_loop_refines[where held = "\<lambda>order res. dict_get (dict_get allocation order []) res 0"
      and demand = "\<lambda>order. map_of (dict_get max_demand order [])"
      and allocation = allocation and max_demand = max_demand and finish = ?finish
      and work = available, OF keys held dicts_all dem dist]
  obtain safe where q: "bankers_loop max_demand allocation available ?finish = Inr safe
       \<and> safe_state_spec (\<lambda>order. map_of (dict_get max_demand order []))
            (\<lambda>order res. dict_get (dict_get allocation order []) res 0)
            (map fst max_demand) (\<lambda>res. dict_get available res 0)
            {order. map_of ?finish order = Some True} safe"
    ..
  note s = q[THEN conjunct2, unfolded none]
  have "safe_state_spec (\<lambda>order. map_of (dict_get max_demand order []))
                 (\<lambda>order res. dict_get (dict_get allocation order []) res 0)
                 (map fst max_demand) (\<lambda>res. dict_get available res 0) {} outcome
               \<longleftrightarrow> outcome = safe" for outcome
    using s safe_state_spec_unique[OF _ s] by blast
  with q[THEN conjunct1]
  show "\<exists>safe. bankers_algorithm max_demand allocation available = Inr safe
         \<and> (\<forall>outcome.
               safe_state_spec (\<lambda>order. map_of (dict_get max_demand order []))
                 (\<lambda>order res. dict_get (dict_get allocation order []) res 0)
                 (map fst max_demand) (\<lambda>res. dict_get available res 0) {} outcome
               \<longleftrightarrow> outcome = safe)"
    unfolding bankers_algorithm_def by blast
next
  show "bankers_algorithm [(''X'', [(''R'', 2)]), (''Y'', [(''R'', 1)])]
        [(''X'', [(''R'', 1)]), (''Y'', [(''R'', 1)])] [(''R'', 2)] = Inr True"
    by (rule bankers_example)
qed

theorem bankers_algorithm_safe_state_witness:
  "is_dict [(''X'', [(''R'', 2 :: int)]), (''Y'', [(''R'', 1)])]
   \<and> list_all (\<lambda>(order, held). is_dict held) [(''X'', [(''R'', 1 :: int)]), (''Y'', [(''R'', 1)])]
   \<and> safe_state_spec (\<lambda>order. map_of (dict_get [(''X'', [(''R'', 2)]), (''Y'', [(''R'', 1)])] order []))
        (\<lambda>order res. dict_get (dict_get [(''X'', [(''R'', 1)]), (''Y'', [(''R'', 1)])] order []) res 0)
        [''X'', ''Y''] (\<lambda>res. dict_get [(''R'', 2)] res 0) {} True"
proof -
  let ?md = "[(''X'', [(''R'', 2 :: int)]), (''Y'', [(''R'', 1)])]"
  let ?al = "[(''X'', [(''R'', 1 :: int)]), (''Y'', [(''R'', 1)])]"
  let ?av = "[(''R'', 2 :: int)]"
  have h: "is_dict ?md \<and> list_all (\<lambda>(order, held). is_dict held) ?al"
    by (simp add: is_dict_def)
  note t = bankers_algorithm_safe_state[of ?md ?al ?av]
  from t[THEN conjunct1, rule_format, OF h] obtain safe where
    b: "bankers_algorithm ?md ?al ?av = Inr safe"
    and s: "\<forall>outcome. safe_state_spec (\<lambda>order. map_of (dict_get ?md order []))
              (\<lambda>order res. dict_get (dict_get ?al order []) res 0)
              (map fst ?md) (\<lambda>res. dict_get ?av res 0) {} outcome \<longleftrightarrow> outcome = safe"
    by blast
  from b t[THEN conjunct2] have "safe" by simp
  with s h show ?thesis by simp
qed

section \<open>The allocation pass\<close>

lemma has_key_remove_each:
  "has_key (remove_each pending to_remove) k \<longleftrightarrow> has_key pending k \<and> k \<notin> set to_remove"
proof (induction pending to_remove rule: remove_each.induct)
  case (1 pending)
  then show ?case by simp
next
  case (2 pending order_id to_remove)
  show ?case
  proof (cases "has_key pending order_id")
    case True
    with 2 show ?thesis by (simp add: has_key_delete) blast
  next
    case False
    with 2 show ?thesis by simp blast
  qed
qed

lemma allocation_pass_to_remove:
  "allocation_pass priorities requests (ledger, ords, to_remove) = Inr (ledger', ords', to_remove') \<Longrightarrow>
   set to_remove \<subseteq> set to_remove'"
proof (induction requests arbitrary: ledger ords to_remove)
  case Nil
  then show ?case by simp
next
  case (Cons p requests)
  obtain order_id request where p: "p = (order_id, request)" by (cases p)
  show ?case
  proof (cases "can_allocate ledger request")
    case True
    with Cons.prems p obtain ledger1 where
      s: "allocation_pass priorities requests
            (ledger1, AList.update order_id request ords, to_remove @ [order_id])
          = Inr (ledger', ords', to_remove')"
      by (auto split: sum.splits if_splits)
    from Cons.IH[OF s] show ?thesis by simp
  next
    case False
    with Cons.prems p have
      "allocation_pass priorities requests (ledger, ords, to_remove) = Inr (ledger', ords', to_remove')"
      by simp
    from Cons.IH[OF this] show ?thesis .
  qed
qed

lemma allocation_pass_orders_keys:
  "allocation_pass priorities requests (ledger, ords, to_remove) = Inr (ledger', ords', to_remove') \<Longrightarrow>
   has_key ords' k \<Longrightarrow> has_key ords k \<or> k \<in> set to_remove'"
proof (induction requests arbitrary: ledger ords to_remove)
  case Nil
  then show ?case by simp
next
  case (Cons p requests)
  obtain order_id request where p: "p = (order_id, request)" by (cases p)
  show ?case
  proof (cases "can_allocate ledger request")
    case True
    with Cons.prems(1) p obtain ledger1 where
      s: "allocation_pass priorities requests
            (ledger1, AList.update order_id request ords, to_remove @ [order_id])
          = Inr (ledger', ords', to_remove')"
      by (auto split: sum.splits if_splits)
    from allocation_pass_to_remove[OF s] have "order_id \<in> set to_remove'" by simp
    with Cons.IH[OF s Cons.prems(2)] show ?thesis
      by (auto simp: has_key_update)
  next
    case False
    with Cons.prems(1) p have
      "allocation_pass priorities requests (ledger, ords, to_remove) = Inr (ledger', ords', to_remove')"
      by simp
    from Cons.IH[OF this Cons.prems(2)] show ?thesis .
  qed
qed

section \<open>Allocated and pending orders\<close>

lemma exclusive_iff:
  "exclusive om \<longleftrightarrow> (\<forall>k. has_key (orders om) k \<longrightarrow> \<not> has_key (pending_requests om) k)"
proof -
  have "exclusive om \<longleftrightarrow> (\<forall>k \<in> set (map fst (orders om)). \<not> has_key (pending_requests om) k)"
    unfolding exclusive_def list_all_iff ..
  also have "\<dots> \<longleftrightarrow> (\<forall>k. has_key (orders om) k \<longrightarrow> \<not> has_key (pending_requests om) k)"
    unfolding has_key_iff[of "orders om"] by auto
  finally show ?thesis .
qed

lemma process_orders_exclusive:
  assumes "process_orders om = Inr om'" and "exclusive om"
  shows "exclusive om'"
proof -
  from assms(1) obtain ledger ords to_remove where
    pass: "allocation_pass (order_priorities om) (sorted_requests om) (rm om, orders om, [])
             = Inr (ledger, ords, to_remove)"
    and om': "om' = om\<lparr>rm := ledger, orders := ords,
                        pending_requests := remove_each (pending_requests om) to_remove\<rparr>"
    by (auto simp: process_orders_def split: sum.splits)
  have "\<not> has_key (remove_each (pending_requests om) to_remove) k" if "has_key ords k" for k
  proof -
    from allocation_pass_orders_keys[OF pass that]
    have "has_key (orders om) k \<or> k \<in> set to_remove" .
    with assms(2) show ?thesis
      unfolding exclusive_iff has_key_remove_each by blast
  qed
  then show ?thesis unfolding exclusive_iff by (simp add: om')
qed

lemma release_order_exclusive:
  assumes "release_order om order_id = Inr om'" and "exclusive om"
  shows "exclusive om'"
proof -
  from assms(1) have "has_key (orders om') k \<Longrightarrow> has_key (orders om) k"
    and "has_key (pending_requests om') k \<Longrightarrow> has_key (pending_requests om) k" for k
    by (auto simp: release_order_def has_key_delete split: sum.splits if_splits)
  with assms(2) show ?thesis unfolding exclusive_iff by blast
qed

lemma perform_exclusive:
  assumes "perform operation om = Inr om'" and "exclusive om" and "\<not> creates_allocated operation om"
  shows "exclusive om'"
proof (cases operation)
  case (Create_order order_id request priority)
  with assms(1) have "orders om' = orders om"
    and "pending_requests om' = AList.update order_id request (pending_requests om)"
    by (auto simp: create_order_def)
  moreover from Create_order assms(3) have "\<not> has_key (orders om) order_id" by simp
  ultimately show ?thesis using assms(2)
    unfolding exclusive_iff by (simp add: has_key_update) blast
next
  case Process_orders
  with assms show ?thesis by (simp add: process_orders_exclusive)
next
  case (Release_order order_id)
  with assms show ?thesis by (simp add: release_order_exclusive)
next
  case (Cancel_order order_id)
  with assms show ?thesis by (simp add: cancel_order_def release_order_exclusive)
next
  case (Reschedule_order order_id priority)
  with assms(1) have "orders om' = orders om" "pending_requests om' = pending_requests om"
    by (auto simp: reschedule_order_def split: if_splits)
  with assms(2) show ?thesis unfolding exclusive_iff by simp
next
  case (Request_resources order_id request)
  with assms(1) have "orders om' = orders om" "pending_requests om' = pending_requests om"
    by (auto split: sum.splits)
  with assms(2) show ?thesis unfolding exclusive_iff by simp
next
  case (Release_resources order_id)
  with assms(1) have "orders om' = orders om" "pending_requests om' = pending_requests om"
    by (auto split: sum.splits)
  with assms(2) show ?thesis unfolding exclusive_iff by simp
next
  case (Preempt_resources order_id)
  with assms(1) have "orders om' = orders om" "pending_requests om' = pending_requests om"
    by (auto split: sum.splits)
  with assms(2) show ?thesis unfolding exclusive_iff by simp
next
  case (Add_virtual_resources additions)
  with assms(1) have "orders om' = orders om" "pending_requests om' = pending_requests om"
    by auto
  with assms(2) show ?thesis unfolding exclusive_iff by simp
qed

lemma run_exclusive:
  "run operations om = Inr om' \<Longrightarrow> exclusive om \<Longrightarrow> never_creates_allocated operations om \<Longrightarrow>
   exclusive om'"
proof (induction operations arbitrary: om)
  case Nil
  then show ?case by simp
next
  case (Cons operation operations)
  from Cons.prems(1) obtain om1 where p: "perform operation om = Inr om1"
    and r: "run operations om1 = Inr om'"
    by (auto split: sum.splits)
  from Cons.prems(3) p have g: "\<not> creates_allocated operation om"
    and n: "never_creates_allocated operations om1"
    by simp_all
  from Cons.IH[OF r perform_exclusive[OF p Cons.prems(2) g] n] show ?case .
qed

lemma load_orders_exclusive:
  "distinct (map fst db_orders) \<Longrightarrow> exclusive om \<Longrightarrow>
   \<forall>k \<in> fst ` set db_orders. \<not> has_key (orders om) k \<and> \<not> has_key (pending_requests om) k \<Longrightarrow>
   exclusive (load_orders db_allocations db_orders om)"
proof (induction db_orders arbitrary: om)
  case Nil
  then show ?case by simp
next
  case (Cons p db_orders)
  obtain order_id status priority where p: "p = (order_id, status, priority)" by (cases p)
  let ?om' = "om\<lparr>order_priorities := AList.update order_id priority (order_priorities om)\<rparr>"
  let ?next = "if status = ''allocated''
           then ?om'\<lparr>orders := AList.update order_id (dict_get db_allocations order_id []) (orders ?om')\<rparr>
           else if status = ''pending''
           then ?om'\<lparr>pending_requests :=
                       AList.update order_id (dict_get db_allocations order_id []) (pending_requests ?om')\<rparr>
           else ?om'"
  have "order_id \<in> fst ` set (p # db_orders)" by (simp add: p)
  with Cons.prems(3) have fresh: "\<not> has_key (orders om) order_id" "\<not> has_key (pending_requests om) order_id"
    by blast+
  from Cons.prems(1) have new: "order_id \<notin> fst ` set db_orders" and a: "distinct (map fst db_orders)"
    by (simp_all add: p)
  have b: "exclusive ?next"
    using Cons.prems(2) fresh unfolding exclusive_iff by (simp add: has_key_update) blast
  have c: "\<forall>k \<in> fst ` set db_orders. \<not> has_key (orders ?next) k \<and> \<not> has_key (pending_requests ?next) k"
  proof
    fix k assume k: "k \<in> fst ` set db_orders"
    with new have "k \<noteq> order_id" by blast
    moreover from k have "k \<in> fst ` set (p # db_orders)" by simp
    with Cons.prems(3) have "\<not> has_key (orders om) k \<and> \<not> has_key (pending_requests om) k"
      by blast
    ultimately show "\<not> has_key (orders ?next) k \<and> \<not> has_key (pending_requests ?next) k"
      by (simp add: has_key_update)
  qed
  have "load_orders db_allocations (p # db_orders) om = load_orders db_allocations db_orders ?next"
    by (simp add: p Let_def)
  with Cons.IH[OF a b c] show ?case by (simp only:)
qed

lemma OrderManager_exclusive:
  assumes "is_dict db_orders"
  shows "exclusive (OrderManager ledger db_orders db_allocations)"
  unfolding OrderManager_def
proof (rule load_orders_exclusive)
  show "distinct (map fst db_orders)" using assms by (simp add: is_dict_def)
  show "exclusive \<lparr>rm = ledger, orders = [], pending_requests = [], order_priorities = []\<rparr>"
    by (simp add: exclusive_def)
  show "\<forall>k\<in>fst ` set db_orders.
       \<not> has_key (orders \<lparr>rm = ledger, orders = [], pending_requests = [], order_priorities = []\<rparr>) k \<and>
       \<not> has_key (pending_requests \<lparr>rm = ledger, orders = [], pending_requests = [], order_priorities = []\<rparr>) k"
    by (simp add: has_key_def)
qed

text \<open>
  C7, as stated, fails: \<open>create_order\<close> for an id that is in the allocated-orders map puts
  that id into the pending map as well.
\<close>

theorem exclusive_state_counterexample:
  "run [Create_order ''A'' [(''Oven'', 1)] 5, Process_orders, Create_order ''A'' [(''Oven'', 1)] 5]
       (OrderManager (ResourceManager [(''Oven'', 2)]) [] [])
   = Inr \<lparr>rm = \<lparr>total_resources = [(''Oven'', 2)], available_resources = [(''Oven'', 1)],
                 allocated_resources = [(''A'', [(''Oven'', 1)])]\<rparr>,
          orders = [(''A'', [(''Oven'', 1)])],
          pending_requests = [(''A'', [(''Oven'', 1)])],
          order_priorities = [(''A'', 5)]\<rparr>
   \<and> has_key [(''A'', [(''Oven'', 1 :: int)])] ''A''
   \<and> \<not> exclusive \<lparr>rm = \<lparr>total_resources = [(''Oven'', 2)], available_resources = [(''Oven'', 1)],
                 allocated_resources = [(''A'', [(''Oven'', 1)])]\<rparr>,
          orders = [(''A'', [(''Oven'', 1)])],
          pending_requests = [(''A'', [(''Oven'', 1)])],
          order_priorities = [(''A'', 5)]\<rparr>"
  by (simp add: OrderManager_def ResourceManager_def create_order_def process_orders_def
      sorted_requests_def can_allocate_def allocate_def sync_resources_def dict_get_def
      has_key_def exclusive_def)

text \<open>
  C7, amended. Start from a coordinator loaded from stored orders (each id with one
  status) over any ledger, and make any sequence of calls (coordinator calls, and calls to
  the ledger too) in which \<open>create_order\<close> is never called for an id that is in the
  allocated-orders map at that moment. In every state reached by calls that return, no
  order id is in both the allocated-orders map and the pending map.
\<close>

theorem exclusive_state_invariant:
  assumes "is_dict db_orders"
    and "never_creates_allocated operations (OrderManager ledger db_orders db_allocations)"
    and "run operations (OrderManager ledger db_orders db_allocations) = Inr om"
  shows "\<forall>order_id. \<not> (has_key (orders om) order_id \<and> has_key (pending_requests om) order_id)"
proof -
  from run_exclusive[OF assms(3) OrderManager_exclusive[OF assms(1)] assms(2)]
  have "exclusive om" .
  then show ?thesis unfolding exclusive_iff by blast
qed

theorem exclusive_state_invariant_witness:
  "is_dict [(''Old'', ''allocated'', 1 :: int)]
   \<and> never_creates_allocated
       [Create_order ''A'' [(''Oven'', 1)] 5, Process_orders, Create_order ''B'' [(''Oven'', 1)] 5,
        Process_orders, Release_order ''A'', Process_orders]
       (OrderManager (ResourceManager [(''Oven'', 1)]) [(''Old'', ''allocated'', 1)] [])
   \<and> run
       [Create_order ''A'' [(''Oven'', 1)] 5, Process_orders, Create_order ''B'' [(''Oven'', 1)] 5,
        Process_orders, Release_order ''A'', Process_orders]
       (OrderManager (ResourceManager [(''Oven'', 1)]) [(''Old'', ''allocated'', 1)] [])
     = Inr \<lparr>rm = \<lparr>total_resources = [(''Oven'', 1)], available_resources = [(''Oven'', 0)],
                   allocated_resources = [(''B'', [(''Oven'', 1)])]\<rparr>,
            orders = [(''Old'', []), (''B'', [(''Oven'', 1)])],
            pending_requests = [],
            order_priorities = [(''Old'', 1), (''B'', 5)]\<rparr>
   \<and> \<not> (has_key [(''Old'', []), (''B'', [(''Oven'', 1 :: int)])] ''B'' \<and> has_key ([] :: (order_id \<times> quantities) list) ''B'')"
proof -
  let ?ops = "[Create_order ''A'' [(''Oven'', 1)] 5, Process_orders, Create_order ''B'' [(''Oven'', 1)] 5,
        Process_orders, Release_order ''A'', Process_orders]"
  let ?start = "OrderManager (ResourceManager [(''Oven'', 1)]) [(''Old'', ''allocated'', 1)] []"
  let ?final = "\<lparr>rm = \<lparr>total_resources = [(''Oven'', 1)], available_resources = [(''Oven'', 0)],
                   allocated_resources = [(''B'', [(''Oven'', 1)])]\<rparr>,
            orders = [(''Old'', []), (''B'', [(''Oven'', 1)])],
            pending_requests = [],
            order_priorities = [(''Old'', 1), (''B'', 5)]\<rparr>"
  note defs = OrderManager_def ResourceManager_def create_order_def process_orders_def
      sorted_requests_def can_allocate_def allocate_def sync_resources_def dict_get_def
      has_key_def release_order_def release_resources_def
  have d: "is_dict [(''Old'', ''allocated'', 1 :: int)]"
    by (simp add: is_dict_def)
  have r: "run ?ops ?start = Inr ?final"
    by (simp add: defs)
  have n: "never_creates_allocated ?ops ?start"
    by (simp add: defs)
  from exclusive_state_invariant[OF d n r]
  have "\<not> (has_key (orders ?final) ''B'' \<and> has_key (pending_requests ?final) ''B'')"
    by blast
  with d n r show ?thesis by simp
qed

section \<open>Conservation\<close>





lemma set_delete_subset: "set (AList.delete k al) \<subseteq> set al"
  by (induction al) auto






lemma distinct_keys_sort_key:
  "distinct (map fst (sort_key f xs)) = distinct (map fst xs)"
  by (simp add: distinct_map)


lemma remove_each_subset: "set (remove_each pending to_remove) \<subseteq> set pending"
proof (induction pending to_remove rule: remove_each.induct)
  case (1 pending)
  then show ?case by simp
next
  case (2 pending order_id to_remove)
  with set_delete_subset[of order_id pending] show ?case
    by (cases "has_key pending order_id") auto
qed











section \<open>The single greedy pass\<close>

lemma allocation_pass_append:
  "allocation_pass priorities (xs @ ys) state =
     (case allocation_pass priorities xs state of
        Inl e \<Rightarrow> Inl e
      | Inr state' \<Rightarrow> allocation_pass priorities ys state')"
proof (induction priorities xs state rule: allocation_pass.induct)
  case (1 priorities state)
  then show ?case by simp
next
  case (2 priorities order_id request rest ledger ords to_remove)
  then show ?case by (simp split: sum.splits)
qed

lemma allocation_pass_granted_subset:
  "allocation_pass priorities requests (ledger, ords, to_remove) = Inr (ledger', ords', to_remove') \<Longrightarrow>
   set to_remove' \<subseteq> set to_remove \<union> fst ` set requests"
proof (induction requests arbitrary: ledger ords to_remove)
  case Nil
  then show ?case by simp
next
  case (Cons p requests)
  obtain order_id request where p: "p = (order_id, request)" by (cases p)
  show ?case
  proof (cases "can_allocate ledger request")
    case True
    with Cons.prems p obtain ledger1 where
      s: "allocation_pass priorities requests
            (ledger1, AList.update order_id request ords, to_remove @ [order_id])
          = Inr (ledger', ords', to_remove')"
      by (auto split: sum.splits if_splits)
    from Cons.IH[OF s] show ?thesis by (auto simp: p)
  next
    case False
    with Cons.prems p have
      "allocation_pass priorities requests (ledger, ords, to_remove) = Inr (ledger', ords', to_remove')"
      by simp
    from Cons.IH[OF this] show ?thesis by auto
  qed
qed

lemma allocation_pass_orders_other:
  "allocation_pass priorities requests (ledger, ords, to_remove) = Inr (ledger', ords', to_remove') \<Longrightarrow>
   k \<notin> fst ` set requests \<Longrightarrow> map_of ords' k = map_of ords k"
proof (induction requests arbitrary: ledger ords to_remove)
  case Nil
  then show ?case by simp
next
  case (Cons p requests)
  obtain order_id request where p: "p = (order_id, request)" by (cases p)
  from Cons.prems(2) p have ne: "k \<noteq> order_id" and k: "k \<notin> fst ` set requests" by auto
  show ?case
  proof (cases "can_allocate ledger request")
    case True
    with Cons.prems(1) p obtain ledger1 where
      s: "allocation_pass priorities requests
            (ledger1, AList.update order_id request ords, to_remove @ [order_id])
          = Inr (ledger', ords', to_remove')"
      by (auto split: sum.splits if_splits)
    from Cons.IH[OF s k] ne show ?thesis by (simp add: update_conv')
  next
    case False
    with Cons.prems(1) p have
      "allocation_pass priorities requests (ledger, ords, to_remove) = Inr (ledger', ords', to_remove')"
      by simp
    from Cons.IH[OF this k] show ?thesis .
  qed
qed

lemma map_of_remove_each:
  "map_of (remove_each pending to_remove) k = (if k \<in> set to_remove then None else map_of pending k)"
proof (induction pending to_remove rule: remove_each.induct)
  case (1 pending)
  then show ?case by simp
next
  case (2 pending order_id to_remove)
  show ?case
  proof (cases "has_key pending order_id")
    case True
    with 2 show ?thesis by (simp add: delete_conv')
  next
    case False
    then have "map_of pending order_id = None" by (simp add: has_key_def)
    with 2 False show ?thesis by auto
  qed
qed

lemma allocation_pass_decision:
  assumes pass: "allocation_pass priorities (before @ (order_id, request) # after) (ledger0, ords0, [])
                   = Inr (ledger', ords', granted')"
    and dist: "distinct (map fst (before @ (order_id, request) # after))"
  shows "\<exists>ledger ords granted.
           allocation_pass priorities before (ledger0, ords0, []) = Inr (ledger, ords, granted)
         \<and> (if can_allocate ledger request
             then map_of ords' order_id = Some request \<and> order_id \<in> set granted'
             else map_of ords' order_id = map_of ords0 order_id \<and> order_id \<notin> set granted')"
proof -
  from dist have nb: "order_id \<notin> fst ` set before" and na: "order_id \<notin> fst ` set after"
    by auto
  from pass obtain ledger ords granted where
    b: "allocation_pass priorities before (ledger0, ords0, []) = Inr (ledger, ords, granted)"
    and r: "allocation_pass priorities ((order_id, request) # after) (ledger, ords, granted)
              = Inr (ledger', ords', granted')"
    by (auto simp: allocation_pass_append split: sum.splits)
  have ob: "map_of ords order_id = map_of ords0 order_id"
    by (rule allocation_pass_orders_other[OF b nb])
  from allocation_pass_granted_subset[OF b] nb have gb: "order_id \<notin> set granted" by auto
  have "if can_allocate ledger request
        then map_of ords' order_id = Some request \<and> order_id \<in> set granted'
        else map_of ords' order_id = map_of ords0 order_id \<and> order_id \<notin> set granted'"
  proof (cases "can_allocate ledger request")
    case True
    with r obtain ledger1 where
      s: "allocation_pass priorities after
            (ledger1, AList.update order_id request ords, granted @ [order_id])
          = Inr (ledger', ords', granted')"
      by (auto split: sum.splits if_splits)
    from allocation_pass_orders_other[OF s na]
    have "map_of ords' order_id = Some request" by (simp add: update_conv')
    moreover from allocation_pass_to_remove[OF s] have "order_id \<in> set granted'" by simp
    ultimately show ?thesis using True by simp
  next
    case False
    with r have s: "allocation_pass priorities after (ledger, ords, granted)
          = Inr (ledger', ords', granted')"
      by simp
    from allocation_pass_orders_other[OF s na] ob
    have "map_of ords' order_id = map_of ords0 order_id" by simp
    moreover from allocation_pass_granted_subset[OF s] gb na have "order_id \<notin> set granted'"
      by auto
    ultimately show ?thesis using False by simp
  qed
  with b show ?thesis by blast
qed

text \<open>
  C6. \<open>process_orders\<close> goes once through the pending orders in ascending priority order
  (orders of equal priority in the order of the pending map): the list it walks is sorted
  by priority, stable, and has every pending order exactly once. Each order is decided at
  its turn against the ledger as the orders before it left it: if the ledger grants the
  request, the order is in the allocated map with that request and no longer pending; if
  not, it stays pending with its request and the allocated map is unchanged for it. The
  decision is final for the pass, and the pass adds no pending order.
\<close>

theorem process_orders_single_pass:
  assumes "process_orders om = Inr om'" and "is_dict (pending_requests om)"
  shows "sorted (map (\<lambda>x. dict_get (order_priorities om) (fst x) 5) (sorted_requests om))
       \<and> (\<forall>priority. filter (\<lambda>x. dict_get (order_priorities om) (fst x) 5 = priority) (sorted_requests om)
                      = filter (\<lambda>x. dict_get (order_priorities om) (fst x) 5 = priority) (pending_requests om))
       \<and> set (sorted_requests om) = set (pending_requests om)
       \<and> distinct (map fst (sorted_requests om))
       \<and> (\<forall>before order_id request after.
            sorted_requests om = before @ (order_id, request) # after \<longrightarrow>
            (\<exists>ledger ords granted.
               allocation_pass (order_priorities om) before (rm om, orders om, [])
                 = Inr (ledger, ords, granted)
             \<and> (if can_allocate ledger request
                 then map_of (orders om') order_id = Some request
                      \<and> \<not> has_key (pending_requests om') order_id
                 else map_of (pending_requests om') order_id = Some request
                      \<and> map_of (orders om') order_id = map_of (orders om) order_id)))
       \<and> set (pending_requests om') \<subseteq> set (pending_requests om)"
proof -
  from assms(1) obtain ledger' ords' granted' where
    pass: "allocation_pass (order_priorities om) (sorted_requests om) (rm om, orders om, [])
             = Inr (ledger', ords', granted')"
    and om': "om' = om\<lparr>rm := ledger', orders := ords',
                        pending_requests := remove_each (pending_requests om) granted'\<rparr>"
    by (auto simp: process_orders_def split: sum.splits)
  have s1: "sorted (map (\<lambda>x. dict_get (order_priorities om) (fst x) 5) (sorted_requests om))"
    by (simp add: sorted_requests_def)
  have s2: "filter (\<lambda>x. dict_get (order_priorities om) (fst x) 5 = priority) (sorted_requests om)
          = filter (\<lambda>x. dict_get (order_priorities om) (fst x) 5 = priority) (pending_requests om)"
    for priority
    by (simp add: sorted_requests_def sort_key_stable)
  have s3: "set (sorted_requests om) = set (pending_requests om)"
    by (simp add: sorted_requests_def)
  have s4: "distinct (map fst (sorted_requests om))"
    using assms(2) by (simp add: sorted_requests_def distinct_keys_sort_key is_dict_def)
  have s5: "\<exists>ledger ords granted.
               allocation_pass (order_priorities om) before (rm om, orders om, [])
                 = Inr (ledger, ords, granted)
             \<and> (if can_allocate ledger request
                 then map_of (orders om') order_id = Some request
                      \<and> \<not> has_key (pending_requests om') order_id
                 else map_of (pending_requests om') order_id = Some request
                      \<and> map_of (orders om') order_id = map_of (orders om) order_id)"
    if split: "sorted_requests om = before @ (order_id, request) # after"
    for before order_id request after
  proof -
    from pass split have p: "allocation_pass (order_priorities om)
        (before @ (order_id, request) # after) (rm om, orders om, []) = Inr (ledger', ords', granted')"
      by simp
    from s4 split have d: "distinct (map fst (before @ (order_id, request) # after))" by simp
    from allocation_pass_decision[OF p d] obtain ledger ords granted where
      b: "allocation_pass (order_priorities om) before (rm om, orders om, [])
            = Inr (ledger, ords, granted)"
      and c: "if can_allocate ledger request
             then map_of ords' order_id = Some request \<and> order_id \<in> set granted'
             else map_of ords' order_id = map_of (orders om) order_id \<and> order_id \<notin> set granted'"
      by blast
    from split s3 have "(order_id, request) \<in> set (pending_requests om)" by auto
    with assms(2) have m: "map_of (pending_requests om) order_id = Some request"
      by (simp add: is_dict_def)
    have "if can_allocate ledger request
                 then map_of (orders om') order_id = Some request
                      \<and> \<not> has_key (pending_requests om') order_id
                 else map_of (pending_requests om') order_id = Some request
                      \<and> map_of (orders om') order_id = map_of (orders om) order_id"
      using c m by (simp add: om' has_key_remove_each map_of_remove_each split: if_splits)
    with b show ?thesis by blast
  qed
  have s6: "set (pending_requests om') \<subseteq> set (pending_requests om)"
    by (simp add: om' remove_each_subset)
  from s1 s2 s3 s4 s5 s6 show ?thesis by blast
qed


theorem process_orders_single_pass_witness:
  "process_orders
     \<lparr>rm = ResourceManager [(''Oven'', 1)], orders = [],
      pending_requests = [(''Order2'', [(''Oven'', - 1)]), (''Order1'', [(''Oven'', 2)])],
      order_priorities = [(''Order2'', 2), (''Order1'', 1)]\<rparr>
   = Inr \<lparr>rm = \<lparr>total_resources = [(''Oven'', 1)], available_resources = [(''Oven'', 2)],
                 allocated_resources = [(''Order2'', [(''Oven'', - 1)])]\<rparr>,
          orders = [(''Order2'', [(''Oven'', - 1)])],
          pending_requests = [(''Order1'', [(''Oven'', 2)])],
          order_priorities = [(''Order2'', 2), (''Order1'', 1)]\<rparr>
   \<and> is_dict [(''Order2'', [(''Oven'', - 1 :: int)]), (''Order1'', [(''Oven'', 2)])]
   \<and> \<not> can_allocate (ResourceManager [(''Oven'', 1)]) [(''Oven'', 2)]
   \<and> map_of [(''Order1'', [(''Oven'', 2 :: int)])] ''Order1'' = Some [(''Oven'', 2)]
   \<and> can_allocate \<lparr>total_resources = [(''Oven'', 1)], available_resources = [(''Oven'', 2)],
                    allocated_resources = [(''Order2'', [(''Oven'', - 1)])]\<rparr> [(''Oven'', 2)]"
proof -
  let ?om = "\<lparr>rm = ResourceManager [(''Oven'', 1)], orders = [],
      pending_requests = [(''Order2'', [(''Oven'', - 1)]), (''Order1'', [(''Oven'', 2)])],
      order_priorities = [(''Order2'', 2), (''Order1'', 1)]\<rparr>"
  let ?after = "\<lparr>rm = \<lparr>total_resources = [(''Oven'', 1)], available_resources = [(''Oven'', 2)],
                 allocated_resources = [(''Order2'', [(''Oven'', - 1)])]\<rparr>,
          orders = [(''Order2'', [(''Oven'', - 1)])],
          pending_requests = [(''Order1'', [(''Oven'', 2)])],
          order_priorities = [(''Order2'', 2), (''Order1'', 1)]\<rparr>"
  note defs = ResourceManager_def process_orders_def sorted_requests_def can_allocate_def
      allocate_def sync_resources_def dict_get_def has_key_def
  have p: "process_orders ?om = Inr ?after"
    by (simp add: defs)
  have d: "is_dict (pending_requests ?om)"
    by (simp add: is_dict_def)
  have s: "sorted_requests ?om = [] @ (''Order1'', [(''Oven'', 2)]) # [(''Order2'', [(''Oven'', - 1)])]"
    by (simp add: defs)
  have refused: "\<not> can_allocate (ResourceManager [(''Oven'', 1)]) [(''Oven'', 2)]"
    by (simp add: defs)
  note t = process_orders_single_pass[OF p d]
  note turn = t[THEN conjunct2, THEN conjunct2, THEN conjunct2, THEN conjunct2, THEN conjunct1,
      rule_format, OF s]
  from turn obtain ledger ords granted where
    b: "allocation_pass (order_priorities ?om) [] (rm ?om, orders ?om, []) = Inr (ledger, ords, granted)"
    and c: "if can_allocate ledger [(''Oven'', 2)]
            then map_of (orders ?after) ''Order1'' = Some [(''Oven'', 2)]
                 \<and> \<not> has_key (pending_requests ?after) ''Order1''
            else map_of (pending_requests ?after) ''Order1'' = Some [(''Oven'', 2)]
                 \<and> map_of (orders ?after) ''Order1'' = map_of (orders ?om) ''Order1''"
    by blast
  from b have "ledger = ResourceManager [(''Oven'', 1)]" by simp
  with c refused have still: "map_of (pending_requests ?after) ''Order1'' = Some [(''Oven'', 2)]"
    by simp
  have now: "can_allocate (rm ?after) [(''Oven'', 2)]"
    by (simp add: defs)
  from p d refused still now show ?thesis by simp
qed

end
